theory Spec2Isabelle
  imports Complex_Main "HOL-Library.AList" "HOL-Library.Multiset"
begin

section \<open>SimulEval: the sentence-level scorer\<close>

text \<open>
  A shallow embedding of \<^verbatim>\<open>simuleval/scorer/scorer.py\<close>: the class
  \<^verbatim>\<open>SentenceLevelScorer\<close> with its construction, reset, source delivery,
  translation-list assembly, quality and latency aggregation and the reconstruction from a
  log. Exceptions are values of \<open>py_error\<close>; a method that mutates the scorer returns the
  new scorer; the records sent to the module's logger are returned as a list of lines.
\<close>

subsection \<open>Errors\<close>

text \<open>A \<^verbatim>\<open>KeyError\<close> carries the key that was looked up, as Python's does.\<close>

datatype py_key = KInt int | KStr string

datatype py_error =
    KeyError py_key
  | NotImplementedError
  | StatisticsError
  | AttributeError string
  | TypeError
  | ValueError
  | OverflowError
  | OtherError string

subsection \<open>Data\<close>

text \<open>
  The instance classes live in \<^verbatim>\<open>instance.py\<close>, which the scorer imports. The
  scorer reads the attributes \<^verbatim>\<open>index\<close>, \<^verbatim>\<open>finish_prediction\<close>,
  \<^verbatim>\<open>prediction\<close>, \<^verbatim>\<open>reference\<close> and \<^verbatim>\<open>metrics\<close> of an instance, a
  mapping from a metric family to a mapping from a metric name to a float, the real
  number the float denotes.
\<close>

datatype instance_class = SpeechToTextInstance | TextToTextInstance | TextOutputInstance

record Instance =
  index :: int
  finish_prediction :: bool
  prediction :: string
  reference :: string
  metrics :: "string \<rightharpoonup> (string \<rightharpoonup> real)"

text \<open>The \<^verbatim>\<open>argparse.Namespace\<close> the scorer is configured with.\<close>

record args =
  arg_start_index :: int
  arg_end_index :: int
  arg_eval_latency_unit :: string
  arg_sacrebleu_tokenizer :: string
  arg_no_space :: bool
  arg_source_type :: "string option"

text \<open>
  Modelled from the spec: the data source (\<^verbatim>\<open>GenericDataloader\<close>) supplies, by
  integer index, the source content and the reference of a sentence, and the corpus size.
  The scorer itself only takes its length.
\<close>

type_synonym dataloader = "(string \<times> string) list"

text \<open>
  A Python dictionary keeps its keys in insertion order; assigning to a key that is present
  replaces the value where it stands. \<open>AList.update\<close> does both.
\<close>

type_synonym instance_dict = "(int \<times> Instance) list"

text \<open>
  The scorer. An attribute that \<^verbatim>\<open>__init__\<close> assigns only under
  \<^verbatim>\<open>if args is not None\<close> is an option: \<open>None\<close> is the attribute not being there.
\<close>

record scorer =
  dataloader :: "dataloader option"
  instances :: instance_dict
  sacrebleu_tokenizer :: string
  start_index :: "int option"
  end_index :: "int option"
  args :: "args option"
  eval_latency_unit :: "string option"
  no_space :: "bool option"
  instance_class :: "instance_class option"

subsection \<open>Strings\<close>

text \<open>
  \<^verbatim>\<open>str.strip()\<close> removes white space at both ends. A character is a code point
  below 256; these are the ones Python counts as white space.
\<close>

definition py_isspace :: "char \<Rightarrow> bool" where
  "py_isspace c = ((of_char c :: nat) \<in> {9, 10, 11, 12, 13, 28, 29, 30, 31, 32, 133, 160})"

definition strip :: "string \<Rightarrow> string" where
  "strip s = rev (dropWhile py_isspace (rev (dropWhile py_isspace s)))"

text \<open>\<^verbatim>\<open>str(i)\<close> of an integer, and \<^verbatim>\<open>sep.join(xs)\<close>.\<close>

function str_nat :: "nat \<Rightarrow> string" where
  "str_nat n =
     (if n < 10 then [''0123456789'' ! n]
      else str_nat (n div 10) @ [''0123456789'' ! (n mod 10)])"
  by pat_completeness auto
termination
  by (relation "measure id") auto

declare str_nat.simps [simp del]

definition str_int :: "int \<Rightarrow> string" where
  "str_int i = (if i < 0 then CHR ''-'' # str_nat (nat (- i)) else str_nat (nat i))"

fun join :: "string \<Rightarrow> string list \<Rightarrow> string" where
  "join sep [] = []"
| "join sep [x] = x"
| "join sep (x # y # ys) = x @ sep @ join sep (y # ys)"

subsection \<open>Construction and reset\<close>

text \<open>\<^verbatim>\<open>get_indices\<close>: the indices of \<^verbatim>\<open>range(start_index, end_index)\<close>.\<close>

definition get_indices :: "scorer \<Rightarrow> py_error + int list" where
  "get_indices sc =
     (case start_index sc of
        None \<Rightarrow> Inl (AttributeError ''start_index'')
      | Some s \<Rightarrow>
          (case end_index sc of
             None \<Rightarrow> Inl (AttributeError ''end_index'')
           | Some e \<Rightarrow> Inr [s..e - 1]))"

text \<open>
  \<^verbatim>\<open>__len__\<close> returns the difference as it is. The built-in \<^verbatim>\<open>len\<close>, which
  \<^verbatim>\<open>get_info\<close> calls, checks what \<^verbatim>\<open>__len__\<close> returned: a negative value is a
  \<^verbatim>\<open>ValueError\<close>, a value above \<^verbatim>\<open>sys.maxsize\<close> (of a 64-bit build) an
  \<^verbatim>\<open>OverflowError\<close>.
\<close>

definition dunder_len :: "scorer \<Rightarrow> py_error + int" where
  "dunder_len sc =
     (case end_index sc of
        None \<Rightarrow> Inl (AttributeError ''end_index'')
      | Some e \<Rightarrow>
          (case start_index sc of
             None \<Rightarrow> Inl (AttributeError ''start_index'')
           | Some s \<Rightarrow> Inr (e - s)))"

definition maxsize :: int where
  "maxsize = 2 ^ 63 - 1"

definition len :: "scorer \<Rightarrow> py_error + int" where
  "len sc =
     (case dunder_len sc of
        Inl e \<Rightarrow> Inl e
      | Inr n \<Rightarrow>
          if n < 0 then Inl ValueError
          else if maxsize < n then Inl OverflowError
          else Inr n)"

definition get_info :: "scorer \<Rightarrow> py_error + (string \<rightharpoonup> int)" where
  "get_info sc = (case len sc of Inl e \<Rightarrow> Inl e | Inr n \<Rightarrow> Inr [''num_sentences'' \<mapsto> n])"

text \<open>
  The loop of \<^verbatim>\<open>reset\<close>. \<open>mk\<close> is the constructor of the instance classes, a
  parameter: \<open>mk c i dl a\<close> is \<^verbatim>\<open>c(i, dl, a)\<close>.
\<close>

type_synonym constructor =
  "instance_class \<Rightarrow> int \<Rightarrow> dataloader option \<Rightarrow> args \<Rightarrow> py_error + Instance"

fun reset_loop :: "constructor \<Rightarrow> scorer \<Rightarrow> int list \<Rightarrow> py_error + scorer" where
  "reset_loop mk sc [] = Inr sc"
| "reset_loop mk sc (i # is) =
     (case instance_class sc of
        None \<Rightarrow> Inl (AttributeError ''instance_class'')
      | Some c \<Rightarrow>
          (case args sc of
             None \<Rightarrow> Inl (AttributeError ''args'')
           | Some a \<Rightarrow>
               (case mk c i (dataloader sc) a of
                  Inl e \<Rightarrow> Inl e
                | Inr x \<Rightarrow>
                    reset_loop mk (sc\<lparr>instances := AList.update i x (instances sc)\<rparr>) is)))"

definition reset :: "constructor \<Rightarrow> scorer \<Rightarrow> py_error + scorer \<times> string list" where
  "reset mk sc =
     (let w = (if length (instances sc) > 0 then [''Resetting scorer''] else []) in
      case get_indices sc of
        Inl e \<Rightarrow> Inl e
      | Inr idx \<Rightarrow>
          (case reset_loop mk sc idx of
             Inl e \<Rightarrow> Inl e
           | Inr sc' \<Rightarrow> Inr (sc', w)))"

text \<open>
  \<^verbatim>\<open>__init__\<close> with \<^verbatim>\<open>args\<close> absent and \<^verbatim>\<open>reset=False\<close>, as
  \<^verbatim>\<open>from_log\<close> calls it: only the data source, the empty mapping and the default
  tokenizer are assigned.
\<close>

definition bare_scorer :: "dataloader option \<Rightarrow> scorer" where
  "bare_scorer dl =
     \<lparr>dataloader = dl, instances = [], sacrebleu_tokenizer = ''13a'',
      start_index = None, end_index = None, args = None,
      eval_latency_unit = None, no_space = None, instance_class = None\<rparr>"

text \<open>
  \<^verbatim>\<open>__init__\<close>. With a negative \<^verbatim>\<open>end_index\<close> the length of the data source is
  taken; \<^verbatim>\<open>len(None)\<close> is a \<^verbatim>\<open>TypeError\<close>.
\<close>

definition configure :: "scorer \<Rightarrow> args \<Rightarrow> py_error + scorer" where
  "configure sc a =
     (case (if arg_end_index a < 0
            then (case dataloader sc of
                    None \<Rightarrow> Inl TypeError
                  | Some dl \<Rightarrow> Inr (int (length dl)))
            else Inr (arg_end_index a)) of
        Inl e \<Rightarrow> Inl e
      | Inr e \<Rightarrow>
          Inr (sc\<lparr>start_index := Some (arg_start_index a),
                  end_index := Some e,
                  args := Some a,
                  eval_latency_unit := Some (arg_eval_latency_unit a),
                  sacrebleu_tokenizer := arg_sacrebleu_tokenizer a,
                  no_space := Some (arg_no_space a),
                  instance_class :=
                    Some (if arg_source_type a = Some ''speech''
                          then SpeechToTextInstance else TextToTextInstance)\<rparr>))"

definition init ::
  "constructor \<Rightarrow> dataloader option \<Rightarrow> args option \<Rightarrow> bool \<Rightarrow> py_error + scorer \<times> string list"
where
  "init mk dl a do_reset =
     (case (case a of None \<Rightarrow> Inr (bare_scorer dl) | Some ar \<Rightarrow> configure (bare_scorer dl) ar) of
        Inl e \<Rightarrow> Inl e
      | Inr sc \<Rightarrow> if do_reset then reset mk sc else Inr (sc, []))"

subsection \<open>Source delivery\<close>

text \<open>
  The response of an instance to \<^verbatim>\<open>send_source\<close> is a dictionary from strings to
  values. \<open>inst_send_source\<close> is the method of the instance, a parameter: it returns the
  response and the instance as the call left it.
\<close>

datatype py_value =
    PyInt int
  | PyStr string
  | PyBool bool
  | PyReal real
  | PyNone
  | PyList "py_value list"

definition send_source ::
  "(Instance \<Rightarrow> int \<Rightarrow> py_error + (string \<rightharpoonup> py_value) \<times> Instance) \<Rightarrow>
   scorer \<Rightarrow> int \<Rightarrow> int \<Rightarrow> py_error + (string \<rightharpoonup> py_value) \<times> scorer"
where
  "send_source inst_send_source sc instance_id segment_size =
     (case map_of (instances sc) instance_id of
        None \<Rightarrow> Inl (KeyError (KInt instance_id))
      | Some x \<Rightarrow>
          (case inst_send_source x segment_size of
             Inl e \<Rightarrow> Inl e
           | Inr (dict_to_return, x') \<Rightarrow>
               Inr (dict_to_return(''instance_id'' \<mapsto> PyInt instance_id),
                    sc\<lparr>instances := AList.update instance_id x' (instances sc)\<rparr>)))"

subsection \<open>Translation and reference lists\<close>

text \<open>
  The comprehension \<^verbatim>\<open>[out(i) for i in idx if keep(self.instances[i])]\<close>: the
  look-up of an index that is not a key raises \<^verbatim>\<open>KeyError\<close>.
\<close>

fun for_indices ::
  "instance_dict \<Rightarrow> (Instance \<Rightarrow> bool) \<Rightarrow> (int \<Rightarrow> Instance \<Rightarrow> 'a) \<Rightarrow> int list \<Rightarrow> py_error + 'a list"
where
  "for_indices d keep out [] = Inr []"
| "for_indices d keep out (i # is) =
     (case map_of d i of
        None \<Rightarrow> Inl (KeyError (KInt i))
      | Some x \<Rightarrow>
          (case for_indices d keep out is of
             Inl e \<Rightarrow> Inl e
           | Inr r \<Rightarrow> Inr (if keep x then out i x # r else r)))"

text \<open>
  The loop \<^verbatim>\<open>for idx in not_finish_write_id: self.instances[idx].sentence_level_eval()\<close>.
  \<open>sentence_level_eval\<close> is the method of the instance, a parameter: it returns the
  instance as the call left it, or the exception it raised.
\<close>

fun eval_unfinished ::
  "(Instance \<Rightarrow> py_error + Instance) \<Rightarrow> int list \<Rightarrow> instance_dict \<Rightarrow> py_error + instance_dict"
where
  "eval_unfinished sentence_level_eval [] d = Inr d"
| "eval_unfinished sentence_level_eval (idx # rest) d =
     (case map_of d idx of
        None \<Rightarrow> Inl (KeyError (KInt idx))
      | Some x \<Rightarrow>
          (case sentence_level_eval x of
             Inl e \<Rightarrow> Inl e
           | Inr x' \<Rightarrow> eval_unfinished sentence_level_eval rest (AList.update idx x' d)))"

definition eos_warning :: string where
  "eos_warning = ''Warning: these hypothesis don't have EOS in predictions''"

definition empty_warning :: string where
  "empty_warning = ''Warning: these hypothesis are empty''"

text \<open>
  \<^verbatim>\<open>get_translation_list\<close> returns the translations, the scorer with the instances as
  the forced evaluation left them, and the lines it logged.
\<close>

definition get_translation_list ::
  "(Instance \<Rightarrow> py_error + Instance) \<Rightarrow> scorer \<Rightarrow> py_error + string list \<times> scorer \<times> string list"
where
  "get_translation_list sentence_level_eval sc =
     (case get_indices sc of
        Inl e \<Rightarrow> Inl e
      | Inr idx \<Rightarrow>
     (case for_indices (instances sc) (\<lambda>x. \<not> finish_prediction x) (\<lambda>i x. i) idx of
        Inl e \<Rightarrow> Inl e
      | Inr not_finish_write_id \<Rightarrow>
     (case for_indices (instances sc) (\<lambda>x. length (prediction x) = 0) (\<lambda>i x. str_int i) idx of
        Inl e \<Rightarrow> Inl e
      | Inr empty_hypo_id \<Rightarrow>
     (case (if length not_finish_write_id > 0
            then eval_unfinished sentence_level_eval not_finish_write_id (instances sc)
            else Inr (instances sc)) of
        Inl e \<Rightarrow> Inl e
      | Inr d \<Rightarrow>
     (case for_indices d (\<lambda>x. True) (\<lambda>i x. prediction x) idx of
        Inl e \<Rightarrow> Inl e
      | Inr translations \<Rightarrow>
          Inr (translations, sc\<lparr>instances := d\<rparr>,
               (if length not_finish_write_id > 0
                then [eos_warning, join '', '' (map str_int not_finish_write_id)] else []) @
               (if length empty_hypo_id > 0
                then [empty_warning, join '', '' empty_hypo_id] else [])))))))"

definition get_reference_list :: "scorer \<Rightarrow> py_error + string list" where
  "get_reference_list sc =
     (case get_indices sc of
        Inl e \<Rightarrow> Inl e
      | Inr idx \<Rightarrow> for_indices (instances sc) (\<lambda>x. True) (\<lambda>i x. reference x) idx)"

subsection \<open>Quality and latency\<close>

text \<open>
  \<open>corpus_bleu\<close> is \<^verbatim>\<open>sacrebleu.corpus_bleu(...).score\<close>, a parameter: the library
  is not part of the repository. Its arguments are the translations, the list of reference
  lists and the tokenizer.
\<close>

type_synonym bleu = "string list \<Rightarrow> string list list \<Rightarrow> string \<Rightarrow> py_error + real"

definition get_quality_score ::
  "bleu \<Rightarrow> (Instance \<Rightarrow> py_error + Instance) \<Rightarrow> scorer \<Rightarrow>
   py_error + (string \<rightharpoonup> real) \<times> scorer \<times> string list"
where
  "get_quality_score corpus_bleu sentence_level_eval sc =
     (case get_translation_list sentence_level_eval sc of
        Inl e \<Rightarrow> Inl e
      | Inr (translations, sc', w) \<Rightarrow>
          (case get_reference_list sc' of
             Inl e \<Rightarrow> Inl e
           | Inr refs \<Rightarrow>
               (case corpus_bleu translations [refs] (sacrebleu_tokenizer sc') of
                  Inl e \<Rightarrow> Inl e
                | Inr bleu_score \<Rightarrow> Inr ([''BLEU'' \<mapsto> bleu_score], sc', w))))"

text \<open>
  A metric value is a Python float: the real number that the double denotes. The
  conversion of an exact fraction to a float (\<^verbatim>\<open>float(Fraction)\<close>) rounds to the
  nearest double, ties to the even significand: 53 bits in the binade of the number, and
  multiples of \<open>pow2 (- 1074)\<close> below \<open>pow2 (- 1022)\<close>. A mean of doubles lies between
  them, so the conversion of a mean never overflows.
\<close>

definition pow2 :: "int \<Rightarrow> real" where
  "pow2 e = (if 0 \<le> e then 2 ^ nat e else 1 / 2 ^ nat (- e))"

definition binade :: "real \<Rightarrow> int" where
  "binade x = \<lfloor>log 2 \<bar>x\<bar>\<rfloor>"

definition round_half_even :: "real \<Rightarrow> int" where
  "round_half_even y =
     (let f = \<lfloor>y\<rfloor> in
      if y - of_int f < 1 / 2 then f
      else if 1 / 2 < y - of_int f then f + 1
      else if even f then f else f + 1)"

definition to_double :: "real \<Rightarrow> real" where
  "to_double x =
     (if x = 0 then 0
      else let u = pow2 (max (binade x) (- 1022) - 52)
           in of_int (round_half_even (x / u)) * u)"

text \<open>
  \<^verbatim>\<open>statistics.mean\<close>: the mean of no data is a \<^verbatim>\<open>StatisticsError\<close>; the data
  are added and divided as exact fractions, and the quotient is converted to a float.
\<close>

definition mean :: "real list \<Rightarrow> py_error + real" where
  "mean xs =
     (if xs = [] then Inl StatisticsError
      else Inr (to_double (sum_list xs / real (length xs))))"

text \<open>The comprehension \<^verbatim>\<open>[seg.metrics[family][metric] for seg in segs]\<close>.\<close>

fun family_values :: "string \<Rightarrow> string \<Rightarrow> Instance list \<Rightarrow> py_error + real list" where
  "family_values family metric [] = Inr []"
| "family_values family metric (seg # segs) =
     (case metrics seg family of
        None \<Rightarrow> Inl (KeyError (KStr family))
      | Some sub \<Rightarrow>
          (case sub metric of
             None \<Rightarrow> Inl (KeyError (KStr metric))
           | Some v \<Rightarrow>
               (case family_values family metric segs of
                  Inl e \<Rightarrow> Inl e
                | Inr vs \<Rightarrow> Inr (v # vs))))"

definition family_mean :: "scorer \<Rightarrow> string \<Rightarrow> string \<Rightarrow> py_error + real" where
  "family_mean sc family metric =
     (case family_values family metric (map snd (instances sc)) of
        Inl e \<Rightarrow> Inl e
      | Inr vs \<Rightarrow> mean vs)"

text \<open>
  One of the two optional statements of the loop body:
  \<^verbatim>\<open>if family in self.instances[0].metrics: results[metric + suffix] = mean([...])\<close>.
\<close>

definition latency_variant ::
  "scorer \<Rightarrow> string \<Rightarrow> string \<Rightarrow> string \<Rightarrow> (string \<rightharpoonup> real) \<Rightarrow> py_error + (string \<rightharpoonup> real)"
where
  "latency_variant sc family suffix metric results =
     (case map_of (instances sc) 0 of
        None \<Rightarrow> Inl (KeyError (KInt 0))
      | Some first \<Rightarrow>
          if metrics first family \<noteq> None
          then (case family_mean sc family metric of
                  Inl e \<Rightarrow> Inl e
                | Inr m \<Rightarrow> Inr (results(metric @ suffix \<mapsto> m)))
          else Inr results)"

text \<open>The body of the loop over the metric names, and the loop.\<close>

definition latency_body ::
  "scorer \<Rightarrow> string \<Rightarrow> (string \<rightharpoonup> real) \<Rightarrow> py_error + (string \<rightharpoonup> real)"
where
  "latency_body sc metric results =
     (case family_mean sc ''latency'' metric of
        Inl e \<Rightarrow> Inl e
      | Inr m \<Rightarrow>
          (case latency_variant sc ''latency_ca'' ''_CA'' metric (results(metric \<mapsto> m)) of
             Inl e \<Rightarrow> Inl e
           | Inr results1 \<Rightarrow>
               latency_variant sc ''latency_text_w_time'' '' (Time in ms)'' metric results1))"

fun latency_loop ::
  "scorer \<Rightarrow> string list \<Rightarrow> (string \<rightharpoonup> real) \<Rightarrow> py_error + (string \<rightharpoonup> real)"
where
  "latency_loop sc [] results = Inr results"
| "latency_loop sc (metric # ms) results =
     (case latency_body sc metric results of
        Inl e \<Rightarrow> Inl e
      | Inr results' \<Rightarrow> latency_loop sc ms results')"

definition get_latency_score :: "scorer \<Rightarrow> py_error + (string \<rightharpoonup> real)" where
  "get_latency_score sc = latency_loop sc [''AL'', ''AP'', ''DAL''] Map.empty"

text \<open>
  \<^verbatim>\<open>score\<close>: the quality first, then the latency, on the instances as the quality
  score left them.
\<close>

definition score ::
  "bleu \<Rightarrow> (Instance \<Rightarrow> py_error + Instance) \<Rightarrow> scorer \<Rightarrow>
   py_error + (string \<rightharpoonup> (string \<rightharpoonup> real)) \<times> scorer \<times> string list"
where
  "score corpus_bleu sentence_level_eval sc =
     (case get_quality_score corpus_bleu sentence_level_eval sc of
        Inl e \<Rightarrow> Inl e
      | Inr (quality, sc', w) \<Rightarrow>
          (case get_latency_score sc' of
             Inl e \<Rightarrow> Inl e
           | Inr latency \<Rightarrow> Inr ([''Quality'' \<mapsto> quality, ''Latency'' \<mapsto> latency], sc', w)))"

subsection \<open>Reconstruction from a log\<close>

text \<open>
  The loop over the lines of the file. \<open>from_json\<close> is the class method of the instance
  class, a parameter here; an exception it raises ends the loop.
\<close>

fun read_instances ::
  "(string \<Rightarrow> py_error + Instance) \<Rightarrow> string list \<Rightarrow> instance_dict \<Rightarrow> py_error + instance_dict"
where
  "read_instances from_json [] d = Inr d"
| "read_instances from_json (line # ls) d =
     (case from_json (strip line) of
        Inl e \<Rightarrow> Inl e
      | Inr inst \<Rightarrow> read_instances from_json ls (AList.update (index inst) inst d))"

text \<open>
  \<open>open_file\<close> stands for \<^verbatim>\<open>open(log_path, "r")\<close> and the iteration over the file:
  the lines of the file, or the exception of the failed open.
\<close>

definition from_log ::
  "(instance_class \<Rightarrow> string \<Rightarrow> py_error + Instance) \<Rightarrow> (string \<Rightarrow> py_error + string list) \<Rightarrow>
   string \<Rightarrow> string \<Rightarrow> py_error + scorer"
where
  "from_log from_json open_file log_path target_type =
     (if target_type = ''text'' then
        (case open_file log_path of
           Inl e \<Rightarrow> Inl e
         | Inr ls \<Rightarrow>
             (case read_instances (from_json TextOutputInstance) ls [] of
                Inl e \<Rightarrow> Inl e
              | Inr d \<Rightarrow>
                  Inr ((bare_scorer None)
                         \<lparr>start_index := Some 0,
                          end_index := Some (int (length (map fst d))),
                          instances := d\<rparr>)))
      else Inl NotImplementedError)"

subsection \<open>Sample data\<close>

text \<open>
  Instances, an instance class and files for the examples below. The sample deserializer
  reads the index from the first character of the line and the prediction from the rest;
  the sample instance answers \<^verbatim>\<open>send_source\<close> with the segment size it was asked
  for; the sample finalizer writes a prediction when it computes the terminal metrics.
\<close>

definition sample_metrics :: "real \<Rightarrow> string \<rightharpoonup> (string \<rightharpoonup> real)" where
  "sample_metrics al = [''latency'' \<mapsto> [''AL'' \<mapsto> al, ''AP'' \<mapsto> 1, ''DAL'' \<mapsto> al]]"

definition sample_instance :: "int \<Rightarrow> bool \<Rightarrow> string \<Rightarrow> real \<Rightarrow> Instance" where
  "sample_instance i fin pred al =
     \<lparr>index = i, finish_prediction = fin, prediction = pred, reference = ''a b'',
      metrics = sample_metrics al\<rparr>"

definition sample_from_json :: "instance_class \<Rightarrow> string \<Rightarrow> py_error + Instance" where
  "sample_from_json c s =
     (case s of
        [] \<Rightarrow> Inl (OtherError ''JSONDecodeError'')
      | ch # rest \<Rightarrow> Inr (sample_instance (int (of_char ch) - 48) True rest 2))"

definition sample_open :: "string list \<Rightarrow> string \<Rightarrow> py_error + string list" where
  "sample_open ls path = (if path = ''log'' then Inr ls else Inl (OtherError ''FileNotFoundError''))"

definition sample_send_source :: "Instance \<Rightarrow> int \<Rightarrow> py_error + (string \<rightharpoonup> py_value) \<times> Instance" where
  "sample_send_source x n = Inr ([''segment_size'' \<mapsto> PyInt n], x)"

definition sample_eval :: "Instance \<Rightarrow> py_error + Instance" where
  "sample_eval x = Inr (x\<lparr>prediction := ''a'', metrics := sample_metrics 4\<rparr>)"

definition sample_scorer :: "instance_dict \<Rightarrow> scorer" where
  "sample_scorer d =
     (bare_scorer None)\<lparr>start_index := Some 0, end_index := Some (int (length d)), instances := d\<rparr>"

subsection \<open>Uniform metric families\<close>

text \<open>
  An instance carries a family when its metrics hold the family with the three metric
  names. The instances of a scorer are uniform when instance 0 is there, every instance
  carries "latency", and every instance carries an optional family if instance 0 has it
  and does not have it otherwise.
\<close>

definition carries :: "Instance \<Rightarrow> string \<Rightarrow> bool" where
  "carries seg family =
     (case metrics seg family of
        None \<Rightarrow> False
      | Some sub \<Rightarrow> sub ''AL'' \<noteq> None \<and> sub ''AP'' \<noteq> None \<and> sub ''DAL'' \<noteq> None)"

definition agrees :: "Instance \<Rightarrow> Instance \<Rightarrow> string \<Rightarrow> bool" where
  "agrees first seg family =
     (if metrics first family \<noteq> None then carries seg family else metrics seg family = None)"

definition uniform_families :: "scorer \<Rightarrow> bool" where
  "uniform_families sc =
     (case map_of (instances sc) 0 of
        None \<Rightarrow> False
      | Some first \<Rightarrow>
          list_all (\<lambda>seg. carries seg ''latency'' \<and> agrees first seg ''latency_ca'' \<and>
                      agrees first seg ''latency_text_w_time'')
            (map snd (instances sc)))"

text \<open>\<^verbatim>\<open>KeyError\<close> is the one \<^verbatim>\<open>LookupError\<close> among the errors above.\<close>

definition is_lookup_error :: "py_error \<Rightarrow> bool" where
  "is_lookup_error e = (case e of KeyError k \<Rightarrow> True | _ \<Rightarrow> False)"

subsection \<open>Sample scorers\<close>

text \<open>
  Two finished instances with the "latency" family only, two with the "latency_ca" family
  as well, the scorer an empty log gives, and a scorer whose range starts at 1.
\<close>

definition sample_ca_instance :: "int \<Rightarrow> real \<Rightarrow> real \<Rightarrow> Instance" where
  "sample_ca_instance i al al_ca =
     (sample_instance i True ''a b'' al)
       \<lparr>metrics := (sample_metrics al)(''latency_ca'' \<mapsto> [''AL'' \<mapsto> al_ca, ''AP'' \<mapsto> 1, ''DAL'' \<mapsto> al_ca])\<rparr>"

definition two_finished :: scorer where
  "two_finished = sample_scorer [(0, sample_instance 0 True ''a b'' 2), (1, sample_instance 1 True ''c'' 4)]"

definition two_ca :: scorer where
  "two_ca = sample_scorer [(0, sample_ca_instance 0 2 6), (1, sample_ca_instance 1 4 8)]"

definition empty_replay :: scorer where
  "empty_replay = sample_scorer []"

definition from_one :: scorer where
  "from_one =
     (sample_scorer [(1, sample_instance 1 True ''a b'' 2), (2, sample_instance 2 True ''c'' 4)])
       \<lparr>start_index := Some 1, end_index := Some 3\<rparr>"

text \<open>The doubles nearest to 0.1 and to 0.2, and two finished instances with these AL.\<close>

definition tenth :: real where
  "tenth = 3602879701896397 / 36028797018963968"

definition fifth :: real where
  "fifth = 3602879701896397 / 18014398509481984"

definition tenth_fifth :: scorer where
  "tenth_fifth =
     sample_scorer [(0, sample_instance 0 True ''a'' tenth), (1, sample_instance 1 True ''b'' fifth)]"

subsection \<open>The mapping a log builds\<close>

text \<open>
  The assignments \<^verbatim>\<open>instances[instance.index] = instance\<close> of the instances
  \<open>xs\<close> in turn, as one fold; and two sample logs.
\<close>

definition insert_all :: "Instance list \<Rightarrow> instance_dict \<Rightarrow> instance_dict" where
  "insert_all xs d = fold (\<lambda>x. AList.update (index x) x) xs d"

definition two_line_log :: "string list" where
  "two_line_log = [''0a\<newline>'', ''1b\<newline>'']"

definition duplicate_log :: "string list" where
  "duplicate_log = [''0a\<newline>'', ''0b\<newline>'']"

subsection \<open>The translation list, described\<close>

text \<open>
  What the forced evaluation does to one instance: a finished instance is left alone, an
  unfinished one is handed to \<^verbatim>\<open>sentence_level_eval\<close>. Then the indices of the
  range whose instance is unfinished, the indices whose instance has an empty prediction,
  and the lines logged for each list; and sample scorers with an unfinished instance.
\<close>

definition recovered :: "(Instance \<Rightarrow> py_error + Instance) \<Rightarrow> Instance \<Rightarrow> py_error + Instance" where
  "recovered sentence_level_eval x = (if finish_prediction x then Inr x else sentence_level_eval x)"

definition eval_at :: "(Instance \<Rightarrow> py_error + Instance) \<Rightarrow> Instance option \<Rightarrow> Instance option" where
  "eval_at sle v = (case v of None \<Rightarrow> None
      | Some x \<Rightarrow> (case sle x of Inl e \<Rightarrow> None | Inr x' \<Rightarrow> Some x'))"

definition unfinished_before :: "scorer \<Rightarrow> int list \<Rightarrow> int list" where
  "unfinished_before sc idx =
     filter (\<lambda>i. case map_of (instances sc) i of None \<Rightarrow> False | Some x \<Rightarrow> \<not> finish_prediction x) idx"

definition empty_in :: "scorer \<Rightarrow> int list \<Rightarrow> int list" where
  "empty_in sc idx =
     filter (\<lambda>i. case map_of (instances sc) i of None \<Rightarrow> False | Some x \<Rightarrow> prediction x = []) idx"

definition eos_lines :: "int list \<Rightarrow> string list" where
  "eos_lines ids = (if ids = [] then [] else [eos_warning, join '', '' (map str_int ids)])"

definition empty_lines :: "int list \<Rightarrow> string list" where
  "empty_lines ids = (if ids = [] then [] else [empty_warning, join '', '' (map str_int ids)])"

definition metrics_eval :: "Instance \<Rightarrow> py_error + Instance" where
  "metrics_eval x = Inr (x\<lparr>metrics := sample_metrics 4\<rparr>)"

definition starved :: scorer where
  "starved = sample_scorer [(0, sample_instance 0 True ''a b'' 2), (1, sample_instance 1 False [] 2)]"

definition starved_one :: scorer where
  "starved_one = sample_scorer [(0, sample_instance 0 False [] 2)]"

definition starved_one_after :: scorer where
  "starved_one_after =
     sample_scorer [(0, (sample_instance 0 False [] 2)\<lparr>prediction := ''a'', metrics := sample_metrics 4\<rparr>)]"

definition starved_evaluated :: scorer where
  "starved_evaluated =
     sample_scorer [(0, sample_instance 0 True ''a b'' 2),
                    (1, (sample_instance 1 False [] 2)\<lparr>metrics := sample_metrics 4\<rparr>)]"

definition starved_after :: scorer where
  "starved_after =
     sample_scorer [(0, sample_instance 0 True ''a b'' 2),
                    (1, (sample_instance 1 False [] 2)\<lparr>prediction := ''a'', metrics := sample_metrics 4\<rparr>)]"

subsection \<open>Configured and populated scorers\<close>

text \<open>
  A scorer is configured when the attributes of a configuration are there and the keys of
  its instance mapping are none or the indices of its range, in order. It is populated when
  the keys are the indices of its range and every key is bound to what the constructor
  returns for it. Then a sample configuration, constructor and corpus, and sample live
  scorers.
\<close>

definition configured :: "scorer \<Rightarrow> bool" where
  "configured sc =
     (case get_indices sc of
        Inl e \<Rightarrow> False
      | Inr idx \<Rightarrow>
          instance_class sc \<noteq> None \<and> args sc \<noteq> None \<and>
          (instances sc = [] \<or> map fst (instances sc) = idx))"

definition populated :: "constructor \<Rightarrow> scorer \<Rightarrow> bool" where
  "populated mk sc =
     (case get_indices sc of
        Inl e \<Rightarrow> False
      | Inr idx \<Rightarrow>
          map fst (instances sc) = idx \<and>
          (case instance_class sc of
             None \<Rightarrow> False
           | Some c \<Rightarrow>
               (case args sc of
                  None \<Rightarrow> False
                | Some a \<Rightarrow>
                    list_all (\<lambda>(i, x). mk c i (dataloader sc) a = Inr x) (instances sc))))"

definition sample_args :: "int \<Rightarrow> int \<Rightarrow> args" where
  "sample_args s e =
     \<lparr>arg_start_index = s, arg_end_index = e, arg_eval_latency_unit = ''word'',
      arg_sacrebleu_tokenizer = ''13a'', arg_no_space = False, arg_source_type = None\<rparr>"

definition sample_mk :: constructor where
  "sample_mk c i dl a =
     (case dl of
        None \<Rightarrow> Inr \<lparr>index = i, finish_prediction = False, prediction = [], reference = [],
                      metrics = Map.empty\<rparr>
      | Some d \<Rightarrow>
          if 0 \<le> i \<and> i < int (length d)
          then Inr \<lparr>index = i, finish_prediction = False, prediction = [],
                    reference = snd (d ! nat i), metrics = Map.empty\<rparr>
          else Inl (OtherError ''IndexError''))"

definition sample_corpus :: dataloader where
  "sample_corpus = [(''x'', ''a''), (''y'', ''b'')]"

definition fresh :: "int \<Rightarrow> string \<Rightarrow> Instance" where
  "fresh i r = \<lparr>index = i, finish_prediction = False, prediction = [], reference = r,
               metrics = Map.empty\<rparr>"

definition live :: "dataloader option \<Rightarrow> int \<Rightarrow> int \<Rightarrow> int \<Rightarrow> instance_dict \<Rightarrow> scorer" where
  "live dl s e e' d =
     \<lparr>dataloader = dl, instances = d, sacrebleu_tokenizer = ''13a'',
      start_index = Some s, end_index = Some e', args = Some (sample_args s e),
      eval_latency_unit = Some ''word'', no_space = Some False,
      instance_class = Some TextToTextInstance\<rparr>"

definition backwards :: scorer where
  "backwards = live None 5 3 3 []"

definition two_fresh :: scorer where
  "two_fresh = live (Some sample_corpus) 0 (- 1) 2 [(0, fresh 0 ''a''), (1, fresh 1 ''b'')]"

subsection \<open>Corpus BLEU for the examples\<close>

text \<open>
  \<^verbatim>\<open>sacrebleu.corpus_bleu\<close> is a parameter of \<^verbatim>\<open>get_quality_score\<close> above, and
  the theorems below hold for every such function. The examples need one:
  \<open>sample_bleu\<close> follows the computation of the library on one reference stream. The
  lines are cut into tokens, the non-blank characters under the tokenizer "char" and the
  words between blanks otherwise, which is what "13a" gives on lines of letters and blanks.
  For the orders 1 to 4 the n-grams of each hypothesis are matched against those of its
  reference, an n-gram counted at most as often as the reference has it, and the counts
  are summed over the corpus. An order with no n-gram ends the loop over the orders and
  leaves the remaining precisions at 0; an order without a match gets the smoothed
  precision of the method "exp". The score is the brevity penalty times the geometric mean
  of the four precisions, and 0 when nothing matched or a precision is 0 (the library
  takes -9999999999 for the logarithm of 0, and the exponential is then 0.0). The
  stand-in computes in the reals where the library computes in floats.
\<close>

fun words_from :: "string \<Rightarrow> string \<Rightarrow> string list" where
  "words_from cur [] = (if cur = [] then [] else [cur])"
| "words_from cur (c # cs) =
     (if py_isspace c then (if cur = [] then [] else [cur]) @ words_from [] cs
      else words_from (cur @ [c]) cs)"

definition bleu_tokens :: "string \<Rightarrow> string \<Rightarrow> string list" where
  "bleu_tokens tokenize line =
     (if tokenize = ''char'' then map (\<lambda>c. [c]) (filter (\<lambda>c. \<not> py_isspace c) line)
      else words_from [] line)"

fun ngrams :: "nat \<Rightarrow> 'a list \<Rightarrow> 'a list list" where
  "ngrams n [] = []"
| "ngrams n (t # ts) = (if n \<le> length (t # ts) then [take n (t # ts)] else []) @ ngrams n ts"

definition clipped :: "nat \<Rightarrow> string list \<Rightarrow> string list \<Rightarrow> nat" where
  "clipped n hyp ref =
     sum_list (map (\<lambda>g. min (count_list (ngrams n hyp) g) (count_list (ngrams n ref) g))
                (remdups (ngrams n hyp)))"

definition ngram_stats :: "(string list \<times> string list) list \<Rightarrow> nat \<Rightarrow> nat \<times> nat" where
  "ngram_stats pairs n =
     (sum_list (map (\<lambda>(hyp, ref). clipped n hyp ref) pairs),
      sum_list (map (\<lambda>(hyp, ref). length (ngrams n hyp)) pairs))"

fun smoothed :: "(nat \<times> nat) list \<Rightarrow> real \<Rightarrow> real list" where
  "smoothed [] smooth_mteval = []"
| "smoothed ((matched, guessed) # rest) smooth_mteval =
     (if guessed = 0 then replicate (Suc (length rest)) 0
      else if matched = 0
        then 100 / (2 * smooth_mteval * real guessed) # smoothed rest (2 * smooth_mteval)
        else 100 * real matched / real guessed # smoothed rest smooth_mteval)"

definition brevity :: "nat \<Rightarrow> nat \<Rightarrow> real" where
  "brevity sys_len ref_len =
     (if sys_len < ref_len
      then (if 0 < sys_len then exp (1 - real ref_len / real sys_len) else 0)
      else 1)"

definition sample_bleu :: bleu where
  "sample_bleu translations refs tokenize =
     (case refs of
        [ref_list] \<Rightarrow>
          (let pairs = zip (map (bleu_tokens tokenize) translations)
                           (map (bleu_tokens tokenize) ref_list);
               stats = map (ngram_stats pairs) [1, 2, 3, 4];
               precisions = smoothed stats 1;
               bp = brevity (sum_list (map (\<lambda>(hyp, ref). length hyp) pairs))
                            (sum_list (map (\<lambda>(hyp, ref). length ref) pairs))
           in Inr (if list_all (\<lambda>(matched, guessed). matched = 0) stats \<or> 0 \<in> set precisions
                   then 0
                   else bp * exp (sum_list (map ln precisions) / 4)))
      | _ \<Rightarrow> Inl (OtherError ''one reference stream expected''))"

subsection \<open>A live scorer and its log\<close>

text \<open>
  A scorer over indices numbered from 0: the range starts at 0 and ends at the number of
  instances, the keys are the indices of the range in order, every instance is stored under
  its own index and is finished.
\<close>

definition finished_from_zero :: "scorer \<Rightarrow> bool" where
  "finished_from_zero sc =
     (start_index sc = Some 0 \<and> end_index sc = Some (int (length (instances sc))) \<and>
      map fst (instances sc) = [0..int (length (instances sc)) - 1] \<and>
      list_all (\<lambda>(i, x). index x = i \<and> finish_prediction x) (instances sc))"

text \<open>
  Modelled from the spec: the persisted log holds one record per line, one line per
  instance, in the serialization of the instance class, which \<^verbatim>\<open>instance.py\<close>
  owns. \<open>from_json\<close> is the deserializer of that class, a parameter. The lines \<open>ls\<close>
  are a log of the scorer when the deserializer, applied to the stripped lines, returns the
  instances of the scorer (index, end-of-prediction flag, prediction, reference and
  metrics), one line for each instance, the lines in any order.
\<close>

definition is_log_of ::
  "(instance_class \<Rightarrow> string \<Rightarrow> py_error + Instance) \<Rightarrow> scorer \<Rightarrow> string list \<Rightarrow> bool"
where
  "is_log_of from_json sc ls =
     (mset (map (\<lambda>l. from_json TextOutputInstance (strip l)) ls) =
      mset (map (\<lambda>(i, x). Inr x) (instances sc)))"

text \<open>
  A live scorer with two finished instances under the default tokenizer, a log of it with
  the lines in the opposite order, and the scorer that log gives. Then a configuration with
  the tokenizer "char" over a corpus of one segment, the scorer of that configuration with
  \<open>x\<close> as instance 0, and the scorer a log of one line gives. Last, the BLEU entry of a
  score.
\<close>

definition round_corpus :: dataloader where
  "round_corpus = [(''x'', ''a b''), (''y'', ''a b'')]"

definition two_live :: scorer where
  "two_live =
     live (Some round_corpus) 0 2 2
       [(0, sample_instance 0 True ''a b a b'' 2), (1, sample_instance 1 True ''a b'' 2)]"

definition two_live_log :: "string list" where
  "two_live_log = [''1a b\<newline>'', ''0a b a b\<newline>'']"

definition two_replay :: scorer where
  "two_replay =
     sample_scorer [(1, sample_instance 1 True ''a b'' 2), (0, sample_instance 0 True ''a b a b'' 2)]"

definition char_args :: args where
  "char_args = (sample_args 0 1)\<lparr>arg_sacrebleu_tokenizer := ''char''\<rparr>"

definition char_corpus :: dataloader where
  "char_corpus = [(''x'', ''a b'')]"

definition char_live :: "Instance \<Rightarrow> scorer" where
  "char_live x =
     \<lparr>dataloader = Some char_corpus, instances = [(0, x)], sacrebleu_tokenizer = ''char'',
      start_index = Some 0, end_index = Some 1, args = Some char_args,
      eval_latency_unit = Some ''word'', no_space = Some False,
      instance_class = Some TextToTextInstance\<rparr>"

definition char_replay :: scorer where
  "char_replay = sample_scorer [(0, sample_instance 0 True ''ab ab'' 2)]"

definition reported_bleu :: "py_error + (string \<rightharpoonup> (string \<rightharpoonup> real)) \<Rightarrow> real option" where
  "reported_bleu r =
     (case r of
        Inl e \<Rightarrow> None
      | Inr res \<Rightarrow> (case res ''Quality'' of None \<Rightarrow> None | Some q \<Rightarrow> q ''BLEU''))"

section \<open>Properties\<close>

subsection \<open>Unsupported target types and source delivery\<close>

text \<open>
  C9. For every target type other than "text", \<open>from_log\<close> fails with
  \<^verbatim>\<open>NotImplementedError\<close>, whatever the file system and the deserializer would do:
  the file is not opened, no line is read, no instance is deserialized and no scorer is
  returned.
\<close>

theorem from_log_not_implemented:
  "target_type \<noteq> ''text'' \<Longrightarrow>
     from_log from_json open_file log_path target_type = Inl NotImplementedError"
  by (simp add: from_log_def)

theorem from_log_not_implemented_witness:
  "''speech'' \<noteq> ''text'' \<and>
   from_log sample_from_json (sample_open [''0a'']) ''missing'' ''speech'' = Inl NotImplementedError"
proof -
  have h: "''speech'' \<noteq> ''text''" by simp
  show ?thesis by (rule conjI [OF h from_log_not_implemented [OF h]])
qed

text \<open>
  C8. When \<open>instance_id\<close> is a key of the instance mapping and the instance answers
  \<^verbatim>\<open>send_source(segment_size)\<close> with the mapping \<open>d\<close>, the scorer returns \<open>d\<close> with
  the key "instance_id" bound to \<open>instance_id\<close>. When \<open>instance_id\<close> is not a key, the call
  fails with the \<^verbatim>\<open>KeyError\<close> of the look-up.
\<close>

theorem send_source_relay:
  "(map_of (instances sc) instance_id = Some x \<longrightarrow>
      inst_send_source x segment_size = Inr (d, x') \<longrightarrow>
      (\<exists>sc'. send_source inst_send_source sc instance_id segment_size =
               Inr (d(''instance_id'' \<mapsto> PyInt instance_id), sc')))
   \<and> (map_of (instances sc) instance_id = None \<longrightarrow>
      send_source inst_send_source sc instance_id segment_size = Inl (KeyError (KInt instance_id)))"
  by (simp add: send_source_def)

theorem send_source_relay_witness:
  "(\<exists>sc'. send_source sample_send_source (sample_scorer [(0, sample_instance 0 False [] 2)]) 0 3 =
       Inr ([''segment_size'' \<mapsto> PyInt 3, ''instance_id'' \<mapsto> PyInt 0], sc'))
   \<and> send_source sample_send_source (sample_scorer [(0, sample_instance 0 False [] 2)]) 1 3 =
       Inl (KeyError (KInt 1))"
proof -
  let ?sc = "sample_scorer [(0, sample_instance 0 False [] 2)]"
  have present: "map_of (instances ?sc) 0 = Some (sample_instance 0 False [] 2)"
    by (simp add: sample_scorer_def)
  have absent: "map_of (instances ?sc) 1 = None"
    by (simp add: sample_scorer_def)
  have call: "sample_send_source (sample_instance 0 False [] 2) 3 =
      Inr ([''segment_size'' \<mapsto> PyInt 3], sample_instance 0 False [] 2)"
    by (simp add: sample_send_source_def)
  from send_source_relay [of ?sc 0 "sample_instance 0 False [] 2" sample_send_source 3
      "[''segment_size'' \<mapsto> PyInt 3]" "sample_instance 0 False [] 2"] present call
  have one: "\<exists>sc'. send_source sample_send_source ?sc 0 3 =
       Inr ([''segment_size'' \<mapsto> PyInt 3, ''instance_id'' \<mapsto> PyInt 0], sc')"
    by blast
  from send_source_relay [of ?sc 1 _ sample_send_source 3] absent
  have two: "send_source sample_send_source ?sc 1 3 = Inl (KeyError (KInt 1))"
    by blast
  from one two show ?thesis by blast
qed

subsection \<open>Conversion to a float\<close>

lemma pow2_powr: "pow2 k = 2 powr (of_int k)"
proof (cases "0 \<le> k")
  case True
  then have "(2::real) powr (of_int k) = 2 powr (real (nat k))" by simp
  also have "\<dots> = 2 ^ nat k" by (rule powr_realpow) simp
  finally show ?thesis using True by (simp add: pow2_def)
next
  case False
  then have "(2::real) powr (of_int k) = 2 powr (- real (nat (- k)))" by simp
  also have "\<dots> = inverse (2 powr (real (nat (- k))))" by (rule powr_minus)
  also have "2 powr (real (nat (- k))) = (2::real) ^ nat (- k)" by (rule powr_realpow) simp
  finally show ?thesis using False by (simp add: pow2_def inverse_eq_divide)
qed

lemma binade_eqI:
  assumes "pow2 k \<le> \<bar>x\<bar>" and "\<bar>x\<bar> < pow2 (k + 1)"
  shows "binade x = k"
proof -
  have "0 < pow2 k" by (simp add: pow2_def)
  with assms(1) have pos: "0 < \<bar>x\<bar>" by linarith
  have "2 powr (of_int k) \<le> \<bar>x\<bar> \<and> \<bar>x\<bar> < 2 powr (of_int k + 1)"
    using assms by (simp add: pow2_powr)
  then show ?thesis
    unfolding binade_def using floor_log_eq_powr_iff [OF pos, of 2 k] by simp
qed

lemma to_double_eval:
  assumes "pow2 k \<le> \<bar>x\<bar>" and "\<bar>x\<bar> < pow2 (k + 1)"
  shows "to_double x =
     of_int (round_half_even (x / pow2 (max k (- 1022) - 52))) * pow2 (max k (- 1022) - 52)"
proof -
  have "0 < pow2 k" by (simp add: pow2_def)
  with assms(1) have "x \<noteq> 0" by auto
  then show ?thesis
    by (simp add: to_double_def binade_eqI [OF assms] Let_def)
qed

lemma round_half_even_int: "round_half_even (of_int n) = n"
  by (simp add: round_half_even_def)

lemma to_double_1: "to_double 1 = 1"
  using to_double_eval [of 0 1] round_half_even_int [of 4503599627370496]
  by (simp add: pow2_def)

lemma to_double_2: "to_double 2 = 2"
  using to_double_eval [of 1 2] round_half_even_int [of 4503599627370496]
  by (simp add: pow2_def)

lemma to_double_3: "to_double 3 = 3"
  using to_double_eval [of 1 3] round_half_even_int [of 6755399441055744]
  by (simp add: pow2_def)

lemma to_double_7: "to_double 7 = 7"
  using to_double_eval [of 2 7] round_half_even_int [of 7881299347898368]
  by (simp add: pow2_def)

lemma to_double_tenth: "to_double (3602879701896397 / 36028797018963968) = 3602879701896397 / 36028797018963968"
  using to_double_eval [of "-4" "3602879701896397 / 36028797018963968"]
    round_half_even_int [of 7205759403792794]
  by (simp add: pow2_def)

lemma to_double_fifth: "to_double (3602879701896397 / 18014398509481984) = 3602879701896397 / 18014398509481984"
  using to_double_eval [of "-3" "3602879701896397 / 18014398509481984"]
    round_half_even_int [of 7205759403792794]
  by (simp add: pow2_def)

lemma round_tie: "round_half_even (10808639105689191 / 2) = 5404319552844596"
proof -
  have f: "\<lfloor>10808639105689191 / 2 :: real\<rfloor> = 5404319552844595"
    by (rule floor_unique) simp_all
  show ?thesis
    unfolding round_half_even_def Let_def f by simp
qed

lemma to_double_mean_tenth_fifth:
  "to_double (10808639105689191 / 72057594037927936) = 1351079888211149 / 9007199254740992"
  using to_double_eval [of "-3" "10808639105689191 / 72057594037927936"] round_tie
  by (simp add: pow2_def)

lemmas to_double_small = to_double_1 to_double_2 to_double_3 to_double_7

subsection \<open>Latency aggregation\<close>

lemma family_values_Inl:
  "family_values f m xs = Inl e \<Longrightarrow> e = KeyError (KStr f) \<or> e = KeyError (KStr m)"
  by (induction xs) (auto split: option.splits sum.splits)

lemma family_values_Inr:
  "family_values f m xs = Inr vs \<Longrightarrow>
     list_all2 (\<lambda>seg v. \<exists>sub. metrics seg f = Some sub \<and> sub m = Some v) xs vs"
  by (induction xs arbitrary: vs) (auto split: option.splits sum.splits)

lemma family_values_total:
  "\<forall>seg \<in> set xs. \<exists>sub v. metrics seg f = Some sub \<and> sub m = Some v \<Longrightarrow>
     \<exists>vs. family_values f m xs = Inr vs"
  by (induction xs) (auto split: option.splits sum.splits)

lemma family_mean_Inl:
  "family_mean sc f m = Inl e \<Longrightarrow>
     (instances sc = [] \<and> e = StatisticsError) \<or>
     (instances sc \<noteq> [] \<and> (e = KeyError (KStr f) \<or> e = KeyError (KStr m)))"
  by (cases "instances sc")
     (auto simp: family_mean_def mean_def split: sum.splits if_splits option.splits
           dest: family_values_Inl)

lemma family_mean_Inr:
  "family_mean sc f m = Inr a \<Longrightarrow>
     \<exists>vs. list_all2 (\<lambda>seg v. \<exists>sub. metrics seg f = Some sub \<and> sub m = Some v)
             (map snd (instances sc)) vs \<and>
          vs \<noteq> [] \<and> a = to_double (sum_list vs / real (length vs))"
  by (auto simp: family_mean_def mean_def split: sum.splits if_splits dest: family_values_Inr)

lemma family_mean_empty: "instances sc = [] \<Longrightarrow> family_mean sc f m = Inl StatisticsError"
  by (simp add: family_mean_def mean_def)

lemma family_mean_total:
  "instances sc \<noteq> [] \<Longrightarrow>
   \<forall>seg \<in> snd ` set (instances sc). \<exists>sub v. metrics seg f = Some sub \<and> sub m = Some v \<Longrightarrow>
     \<exists>a. family_mean sc f m = Inr a"
  using family_values_total [of "map snd (instances sc)" f m]
  by (cases "instances sc") (auto simp: family_mean_def mean_def split: sum.splits)

lemma latency_variant_Inr:
  "latency_variant sc f suffix m r = Inr r' \<Longrightarrow>
     \<exists>first. map_of (instances sc) 0 = Some first \<and>
       (if metrics first f \<noteq> None
        then \<exists>a. family_mean sc f m = Inr a \<and> r' = r(m @ suffix \<mapsto> a)
        else r' = r)"
  by (auto simp: latency_variant_def split: option.splits sum.splits if_splits)

lemma latency_variant_Inl:
  "latency_variant sc f suffix m r = Inl e \<Longrightarrow>
     (map_of (instances sc) 0 = None \<and> e = KeyError (KInt 0)) \<or>
     (map_of (instances sc) 0 \<noteq> None \<and> family_mean sc f m = Inl e)"
  by (auto simp: latency_variant_def split: option.splits sum.splits if_splits)

lemma latency_variant_first:
  "latency_variant sc f suffix m r = Inr r' \<Longrightarrow> \<exists>first. map_of (instances sc) 0 = Some first"
  by (cases "map_of (instances sc) 0") (simp_all add: latency_variant_def)

lemma latency_variant_dom:
  "latency_variant sc f suffix m r = Inr r' \<Longrightarrow> map_of (instances sc) 0 = Some first \<Longrightarrow>
     dom r' = dom r \<union> (if metrics first f \<noteq> None then {m @ suffix} else {})"
  by (auto simp: latency_variant_def split: sum.splits if_splits)

lemma latency_variant_other:
  "latency_variant sc f suffix m r = Inr r' \<Longrightarrow> k \<noteq> m @ suffix \<Longrightarrow> r' k = r k"
  by (auto simp: latency_variant_def split: option.splits sum.splits if_splits)

lemma latency_body_steps:
  assumes "latency_body sc m r = Inr r'"
  obtains a r1 where "family_mean sc ''latency'' m = Inr a"
    and "latency_variant sc ''latency_ca'' ''_CA'' m (r(m \<mapsto> a)) = Inr r1"
    and "latency_variant sc ''latency_text_w_time'' '' (Time in ms)'' m r1 = Inr r'"
  using assms by (auto simp: latency_body_def split: sum.splits)

lemma latency_body_first:
  assumes "latency_body sc m r = Inr r'"
  shows "\<exists>first. map_of (instances sc) 0 = Some first"
proof -
  from assms obtain a r1 where
    "latency_variant sc ''latency_ca'' ''_CA'' m (r(m \<mapsto> a)) = Inr r1"
    by (rule latency_body_steps)
  then show ?thesis by (rule latency_variant_first)
qed

lemma latency_body_dom:
  assumes "latency_body sc m r = Inr r'" and first: "map_of (instances sc) 0 = Some first"
  shows "dom r' = dom r \<union> {m}
           \<union> (if metrics first ''latency_ca'' \<noteq> None then {m @ ''_CA''} else {})
           \<union> (if metrics first ''latency_text_w_time'' \<noteq> None then {m @ '' (Time in ms)''} else {})"
proof -
  from assms(1) obtain a r1 where
    r1: "latency_variant sc ''latency_ca'' ''_CA'' m (r(m \<mapsto> a)) = Inr r1"
    and r': "latency_variant sc ''latency_text_w_time'' '' (Time in ms)'' m r1 = Inr r'"
    by (rule latency_body_steps)
  have "dom r1 = dom r \<union> {m} \<union> (if metrics first ''latency_ca'' \<noteq> None then {m @ ''_CA''} else {})"
    unfolding latency_variant_dom [OF r1 first] by simp
  then show ?thesis
    unfolding latency_variant_dom [OF r' first] by simp
qed

lemma latency_body_val:
  assumes "latency_body sc m r = Inr r'"
  shows "\<exists>a. family_mean sc ''latency'' m = Inr a \<and> r' m = Some a"
proof -
  from assms obtain a r1 where a: "family_mean sc ''latency'' m = Inr a"
    and r1: "latency_variant sc ''latency_ca'' ''_CA'' m (r(m \<mapsto> a)) = Inr r1"
    and r': "latency_variant sc ''latency_text_w_time'' '' (Time in ms)'' m r1 = Inr r'"
    by (rule latency_body_steps)
  have "r1 m = Some a"
    using latency_variant_other [OF r1, of m] by simp
  moreover have "r' m = r1 m"
    using latency_variant_other [OF r', of m] by simp
  ultimately show ?thesis using a by simp
qed

lemma latency_body_other:
  assumes "latency_body sc m r = Inr r'"
    and "k \<noteq> m" and "k \<noteq> m @ ''_CA''" and "k \<noteq> m @ '' (Time in ms)''"
  shows "r' k = r k"
proof -
  from assms(1) obtain a r1 where
    r1: "latency_variant sc ''latency_ca'' ''_CA'' m (r(m \<mapsto> a)) = Inr r1"
    and r': "latency_variant sc ''latency_text_w_time'' '' (Time in ms)'' m r1 = Inr r'"
    by (rule latency_body_steps)
  have "r1 k = r k"
    using latency_variant_other [OF r1 assms(3)] assms(2) by simp
  moreover have "r' k = r1 k"
    by (rule latency_variant_other [OF r' assms(4)])
  ultimately show ?thesis by simp
qed

lemma latency_loop_dom:
  assumes "map_of (instances sc) 0 = Some first"
  shows "latency_loop sc ms r = Inr r' \<Longrightarrow>
     dom r' = dom r \<union> set ms
       \<union> (if metrics first ''latency_ca'' \<noteq> None then (\<lambda>m. m @ ''_CA'') ` set ms else {})
       \<union> (if metrics first ''latency_text_w_time'' \<noteq> None
          then (\<lambda>m. m @ '' (Time in ms)'') ` set ms else {})"
proof (induction ms arbitrary: r)
  case Nil
  then show ?case by simp
next
  case (Cons m ms)
  from Cons.prems obtain r1 where b: "latency_body sc m r = Inr r1"
    and l: "latency_loop sc ms r1 = Inr r'"
    by (auto split: sum.splits)
  from Cons.IH [OF l] latency_body_dom [OF b assms] show ?case
    by (auto split: if_splits)
qed

lemma latency_loop_other:
  "latency_loop sc ms r = Inr r' \<Longrightarrow> k \<notin> set ms \<Longrightarrow>
   k \<notin> (\<lambda>m. m @ ''_CA'') ` set ms \<Longrightarrow> k \<notin> (\<lambda>m. m @ '' (Time in ms)'') ` set ms \<Longrightarrow>
     r' k = r k"
proof (induction ms arbitrary: r)
  case Nil
  then show ?case by simp
next
  case (Cons m ms)
  from Cons.prems(1) obtain r1 where b: "latency_body sc m r = Inr r1"
    and l: "latency_loop sc ms r1 = Inr r'"
    by (auto split: sum.splits)
  from Cons.prems have "r1 k = r k"
    by (intro latency_body_other [OF b]) auto
  moreover from Cons.prems have "r' k = r1 k"
    by (intro Cons.IH [OF l]) auto
  ultimately show ?case by simp
qed

lemma latency_loop_val:
  "latency_loop sc ms r = Inr r' \<Longrightarrow> m \<in> set ms \<Longrightarrow> distinct ms \<Longrightarrow>
   \<forall>m2 \<in> set ms. m \<noteq> m2 @ ''_CA'' \<and> m \<noteq> m2 @ '' (Time in ms)'' \<Longrightarrow>
     \<exists>a. family_mean sc ''latency'' m = Inr a \<and> r' m = Some a"
proof (induction ms arbitrary: r)
  case Nil
  then show ?case by simp
next
  case (Cons m1 ms)
  from Cons.prems(1) obtain r1 where b: "latency_body sc m1 r = Inr r1"
    and l: "latency_loop sc ms r1 = Inr r'"
    by (auto split: sum.splits)
  show ?case
  proof (cases "m = m1")
    case True
    from latency_body_val [OF b] True obtain a
      where a: "family_mean sc ''latency'' m = Inr a" "r1 m = Some a" by auto
    from Cons.prems True have "r' m = r1 m"
      by (intro latency_loop_other [OF l]) auto
    with a show ?thesis by auto
  next
    case False
    with Cons.prems show ?thesis
      by (intro Cons.IH [OF l]) auto
  qed
qed

lemma latency_loop_first:
  "latency_loop sc (m # ms) r = Inr r' \<Longrightarrow> \<exists>first. map_of (instances sc) 0 = Some first"
  by (auto split: sum.splits dest: latency_body_first)


lemma latency_mean_general:
  assumes "get_latency_score sc = Inr results"
    and "metric \<in> {''AL'', ''AP'', ''DAL''}"
  shows "\<exists>vs. list_all2 (\<lambda>seg v. \<exists>sub. metrics seg ''latency'' = Some sub \<and> sub metric = Some v)
                 (map snd (instances sc)) vs \<and>
              vs \<noteq> [] \<and> results metric = Some (to_double (sum_list vs / real (length vs)))"
proof -
  from assms(1) have l: "latency_loop sc [''AL'', ''AP'', ''DAL''] Map.empty = Inr results"
    by (simp add: get_latency_score_def)
  from assms(2) have "\<exists>a. family_mean sc ''latency'' metric = Inr a \<and> results metric = Some a"
    by (intro latency_loop_val [OF l]) auto
  then obtain a where a: "family_mean sc ''latency'' metric = Inr a" "results metric = Some a"
    by blast
  from family_mean_Inr [OF a(1)] a(2) show ?thesis by auto
qed

lemma carries_metric:
  "carries seg f \<Longrightarrow> m \<in> {''AL'', ''AP'', ''DAL''} \<Longrightarrow>
     \<exists>sub v. metrics seg f = Some sub \<and> sub m = Some v"
  by (auto simp: carries_def split: option.splits)

lemma map_of_nonempty: "map_of d k = Some v \<Longrightarrow> d \<noteq> []"
  by auto

lemma latency_variant_total:
  assumes "map_of (instances sc) 0 = Some first"
    and "metrics first f \<noteq> None \<Longrightarrow> \<exists>a. family_mean sc f m = Inr a"
  shows "\<exists>r'. latency_variant sc f suffix m r = Inr r'"
  using assms by (auto simp: latency_variant_def)

lemma uniform_family_mean:
  assumes u: "uniform_families sc" and first: "map_of (instances sc) 0 = Some first"
    and m: "m \<in> {''AL'', ''AP'', ''DAL''}"
  shows "\<exists>a. family_mean sc ''latency'' m = Inr a"
    and "metrics first ''latency_ca'' \<noteq> None \<Longrightarrow> \<exists>a. family_mean sc ''latency_ca'' m = Inr a"
    and "metrics first ''latency_text_w_time'' \<noteq> None \<Longrightarrow>
           \<exists>a. family_mean sc ''latency_text_w_time'' m = Inr a"
proof -
  have ne: "instances sc \<noteq> []" using first by (rule map_of_nonempty)
  from u first have all: "\<forall>seg \<in> snd ` set (instances sc).
      carries seg ''latency'' \<and> agrees first seg ''latency_ca'' \<and>
      agrees first seg ''latency_text_w_time''"
    by (simp add: uniform_families_def list_all_iff)
  show "\<exists>a. family_mean sc ''latency'' m = Inr a"
    using all carries_metric [OF _ m] by (intro family_mean_total [OF ne]) blast
  show "\<exists>a. family_mean sc ''latency_ca'' m = Inr a" if "metrics first ''latency_ca'' \<noteq> None"
    using all that carries_metric [OF _ m]
    by (intro family_mean_total [OF ne]) (simp add: agrees_def)
  show "\<exists>a. family_mean sc ''latency_text_w_time'' m = Inr a"
    if "metrics first ''latency_text_w_time'' \<noteq> None"
    using all that carries_metric [OF _ m]
    by (intro family_mean_total [OF ne]) (simp add: agrees_def)
qed

lemma latency_body_total:
  assumes u: "uniform_families sc" and m: "m \<in> {''AL'', ''AP'', ''DAL''}"
  shows "\<exists>r'. latency_body sc m r = Inr r'"
proof -
  from u obtain first where first: "map_of (instances sc) 0 = Some first"
    by (auto simp: uniform_families_def split: option.splits)
  from uniform_family_mean(1) [OF u first m] obtain a
    where a: "family_mean sc ''latency'' m = Inr a" by blast
  from latency_variant_total [OF first uniform_family_mean(2) [OF u first m]]
  obtain r1 where r1: "latency_variant sc ''latency_ca'' ''_CA'' m (r(m \<mapsto> a)) = Inr r1"
    by blast
  from latency_variant_total [OF first uniform_family_mean(3) [OF u first m]]
  obtain r' where "latency_variant sc ''latency_text_w_time'' '' (Time in ms)'' m r1 = Inr r'"
    by blast
  with a r1 show ?thesis by (simp add: latency_body_def)
qed

lemma latency_loop_total:
  "uniform_families sc \<Longrightarrow> set ms \<subseteq> {''AL'', ''AP'', ''DAL''} \<Longrightarrow>
     \<exists>r'. latency_loop sc ms r = Inr r'"
proof (induction ms arbitrary: r)
  case Nil
  then show ?case by simp
next
  case (Cons m ms)
  from Cons.prems have "m \<in> {''AL'', ''AP'', ''DAL''}" by simp
  from latency_body_total [OF Cons.prems(1) this] obtain r1
    where r1: "latency_body sc m r = Inr r1" by blast
  from Cons.prems have "\<exists>r'. latency_loop sc ms r1 = Inr r'"
    by (intro Cons.IH) auto
  with r1 show ?case by simp
qed

lemma latency_score_dom:
  assumes "get_latency_score sc = Inr results"
  shows "\<exists>first. map_of (instances sc) 0 = Some first \<and>
     dom results = {''AL'', ''AP'', ''DAL''}
       \<union> (if metrics first ''latency_ca'' \<noteq> None then {''AL_CA'', ''AP_CA'', ''DAL_CA''} else {})
       \<union> (if metrics first ''latency_text_w_time'' \<noteq> None
          then {''AL (Time in ms)'', ''AP (Time in ms)'', ''DAL (Time in ms)''} else {})"
proof -
  from assms have l: "latency_loop sc [''AL'', ''AP'', ''DAL''] Map.empty = Inr results"
    by (simp add: get_latency_score_def)
  from latency_loop_first [OF l] obtain first
    where first: "map_of (instances sc) 0 = Some first" by blast
  from latency_loop_dom [OF first l] first show ?thesis by simp
qed

text \<open>
  C6. When the instances carry uniform metric families the latency score is returned; and
  whenever it is returned, for each of AL, AP and DAL the key with the suffix "_CA" is in
  the mapping exactly when the metrics of instance 0 hold "latency_ca", and the key with
  the suffix " (Time in ms)" exactly when they hold "latency_text_w_time". The metrics of
  no other instance are asked.
\<close>

theorem latency_variant_keys:
  "(uniform_families sc \<longrightarrow> (\<exists>results. get_latency_score sc = Inr results)) \<and>
   (get_latency_score sc = Inr results \<longrightarrow> metric \<in> {''AL'', ''AP'', ''DAL''} \<longrightarrow>
      (\<exists>first. map_of (instances sc) 0 = Some first \<and>
         (metric @ ''_CA'' \<in> dom results \<longleftrightarrow> metrics first ''latency_ca'' \<noteq> None) \<and>
         (metric @ '' (Time in ms)'' \<in> dom results \<longleftrightarrow>
            metrics first ''latency_text_w_time'' \<noteq> None)))"
proof (intro conjI impI)
  assume "uniform_families sc"
  then show "\<exists>results. get_latency_score sc = Inr results"
    unfolding get_latency_score_def by (intro latency_loop_total) auto
next
  assume r: "get_latency_score sc = Inr results" and m: "metric \<in> {''AL'', ''AP'', ''DAL''}"
  from latency_score_dom [OF r] obtain first where first: "map_of (instances sc) 0 = Some first"
    and d: "dom results = {''AL'', ''AP'', ''DAL''}
       \<union> (if metrics first ''latency_ca'' \<noteq> None then {''AL_CA'', ''AP_CA'', ''DAL_CA''} else {})
       \<union> (if metrics first ''latency_text_w_time'' \<noteq> None
          then {''AL (Time in ms)'', ''AP (Time in ms)'', ''DAL (Time in ms)''} else {})"
    by blast
  from m have "(metric @ ''_CA'' \<in> dom results \<longleftrightarrow> metrics first ''latency_ca'' \<noteq> None) \<and>
         (metric @ '' (Time in ms)'' \<in> dom results \<longleftrightarrow>
            metrics first ''latency_text_w_time'' \<noteq> None)"
    unfolding d by auto
  with first show "\<exists>first. map_of (instances sc) 0 = Some first \<and>
         (metric @ ''_CA'' \<in> dom results \<longleftrightarrow> metrics first ''latency_ca'' \<noteq> None) \<and>
         (metric @ '' (Time in ms)'' \<in> dom results \<longleftrightarrow>
            metrics first ''latency_text_w_time'' \<noteq> None)"
    by blast
qed

lemma two_finished_latency:
  "get_latency_score two_finished = Inr [''AL'' \<mapsto> 3, ''AP'' \<mapsto> 1, ''DAL'' \<mapsto> 3]"
  by (simp add: get_latency_score_def latency_body_def family_mean_def latency_variant_def
      mean_def to_double_small two_finished_def sample_scorer_def sample_instance_def
      sample_metrics_def)

lemma two_ca_latency:
  "get_latency_score two_ca =
     Inr [''AL'' \<mapsto> 3, ''AL_CA'' \<mapsto> 7, ''AP'' \<mapsto> 1, ''AP_CA'' \<mapsto> 1, ''DAL'' \<mapsto> 3, ''DAL_CA'' \<mapsto> 7]"
  by (simp add: get_latency_score_def latency_body_def family_mean_def latency_variant_def
      mean_def to_double_small two_ca_def sample_scorer_def sample_ca_instance_def sample_instance_def
      sample_metrics_def)

lemma two_ca_uniform: "uniform_families two_ca"
  by (simp add: uniform_families_def carries_def agrees_def two_ca_def sample_scorer_def
      sample_ca_instance_def sample_instance_def sample_metrics_def)

theorem latency_variant_keys_witness:
  "uniform_families two_ca \<and>
   get_latency_score two_ca =
     Inr [''AL'' \<mapsto> 3, ''AL_CA'' \<mapsto> 7, ''AP'' \<mapsto> 1, ''AP_CA'' \<mapsto> 1, ''DAL'' \<mapsto> 3, ''DAL_CA'' \<mapsto> 7] \<and>
   ''AL'' \<in> {''AL'', ''AP'', ''DAL''} \<and>
   (\<exists>results. get_latency_score two_ca = Inr results) \<and>
   (\<exists>first. map_of (instances two_ca) 0 = Some first \<and>
      (''AL'' @ ''_CA'' \<in> dom [''AL'' \<mapsto> 3::real, ''AL_CA'' \<mapsto> 7, ''AP'' \<mapsto> 1, ''AP_CA'' \<mapsto> 1, ''DAL'' \<mapsto> 3, ''DAL_CA'' \<mapsto> 7]
         \<longleftrightarrow> metrics first ''latency_ca'' \<noteq> None) \<and>
      (''AL'' @ '' (Time in ms)'' \<in> dom [''AL'' \<mapsto> 3::real, ''AL_CA'' \<mapsto> 7, ''AP'' \<mapsto> 1, ''AP_CA'' \<mapsto> 1, ''DAL'' \<mapsto> 3, ''DAL_CA'' \<mapsto> 7]
         \<longleftrightarrow> metrics first ''latency_text_w_time'' \<noteq> None))"
proof -
  have m: "''AL'' \<in> {''AL'', ''AP'', ''DAL''}" by simp
  note k = latency_variant_keys [of two_ca
      "[''AL'' \<mapsto> 3, ''AL_CA'' \<mapsto> 7, ''AP'' \<mapsto> 1, ''AP_CA'' \<mapsto> 1, ''DAL'' \<mapsto> 3, ''DAL_CA'' \<mapsto> 7]" "''AL''"]
  from k two_ca_uniform have "\<exists>results. get_latency_score two_ca = Inr results" by blast
  moreover from k two_ca_latency m have "\<exists>first. map_of (instances two_ca) 0 = Some first \<and>
      (''AL'' @ ''_CA'' \<in> dom [''AL'' \<mapsto> 3::real, ''AL_CA'' \<mapsto> 7, ''AP'' \<mapsto> 1, ''AP_CA'' \<mapsto> 1, ''DAL'' \<mapsto> 3, ''DAL_CA'' \<mapsto> 7]
         \<longleftrightarrow> metrics first ''latency_ca'' \<noteq> None) \<and>
      (''AL'' @ '' (Time in ms)'' \<in> dom [''AL'' \<mapsto> 3::real, ''AL_CA'' \<mapsto> 7, ''AP'' \<mapsto> 1, ''AP_CA'' \<mapsto> 1, ''DAL'' \<mapsto> 3, ''DAL_CA'' \<mapsto> 7]
         \<longleftrightarrow> metrics first ''latency_text_w_time'' \<noteq> None)"
    by blast
  ultimately show ?thesis using two_ca_uniform two_ca_latency m by blast
qed

text \<open>
  C7 (as amended). Whenever the latency score is returned, the value reported for each of
  AL, AP and DAL is the sum of that metric of the "latency" family over all instances
  divided by their number, computed exactly and then rounded to the nearest float, and
  there is at least one instance. For two instances with AL 2 and 4 the reported AL is 3.
\<close>

theorem latency_is_mean:
  "(get_latency_score sc = Inr results \<longrightarrow> metric \<in> {''AL'', ''AP'', ''DAL''} \<longrightarrow>
      (\<exists>vs. list_all2 (\<lambda>seg v. \<exists>sub. metrics seg ''latency'' = Some sub \<and> sub metric = Some v)
               (map snd (instances sc)) vs \<and>
            vs \<noteq> [] \<and>
            results metric = Some (to_double (sum_list vs / real (length vs))))) \<and>
   (get_latency_score sc = Inr results \<longrightarrow> map snd (instances sc) = [x, y] \<longrightarrow>
      (\<exists>sub. metrics x ''latency'' = Some sub \<and> sub ''AL'' = Some 2) \<longrightarrow>
      (\<exists>sub. metrics y ''latency'' = Some sub \<and> sub ''AL'' = Some 4) \<longrightarrow>
      results ''AL'' = Some 3)"
proof (intro conjI impI)
  assume "get_latency_score sc = Inr results" and "metric \<in> {''AL'', ''AP'', ''DAL''}"
  then show "\<exists>vs. list_all2 (\<lambda>seg v. \<exists>sub. metrics seg ''latency'' = Some sub \<and> sub metric = Some v)
               (map snd (instances sc)) vs \<and>
            vs \<noteq> [] \<and> results metric = Some (to_double (sum_list vs / real (length vs)))"
    by (rule latency_mean_general)
next
  assume r: "get_latency_score sc = Inr results" and xy: "map snd (instances sc) = [x, y]"
    and x: "\<exists>sub. metrics x ''latency'' = Some sub \<and> sub ''AL'' = Some 2"
    and y: "\<exists>sub. metrics y ''latency'' = Some sub \<and> sub ''AL'' = Some 4"
  have "''AL'' \<in> {''AL'', ''AP'', ''DAL''}" by simp
  from latency_mean_general [OF r this] obtain vs where
    vs: "list_all2 (\<lambda>seg v. \<exists>sub. metrics seg ''latency'' = Some sub \<and> sub ''AL'' = Some v) [x, y] vs"
    and res: "results ''AL'' = Some (to_double (sum_list vs / real (length vs)))"
    unfolding xy by blast
  from vs x y have "vs = [2, 4]"
    by (auto simp: list_all2_Cons1)
  with res show "results ''AL'' = Some 3" by (simp add: to_double_3)
qed

theorem latency_is_mean_witness:
  "get_latency_score two_finished = Inr [''AL'' \<mapsto> 3, ''AP'' \<mapsto> 1, ''DAL'' \<mapsto> 3] \<and>
   ''AL'' \<in> {''AL'', ''AP'', ''DAL''} \<and>
   map snd (instances two_finished) = [sample_instance 0 True ''a b'' 2, sample_instance 1 True ''c'' 4] \<and>
   (\<exists>sub. metrics (sample_instance 0 True ''a b'' 2) ''latency'' = Some sub \<and> sub ''AL'' = Some 2) \<and>
   (\<exists>sub. metrics (sample_instance 1 True ''c'' 4) ''latency'' = Some sub \<and> sub ''AL'' = Some 4) \<and>
   (\<exists>vs. list_all2 (\<lambda>seg v. \<exists>sub. metrics seg ''latency'' = Some sub \<and> sub ''AL'' = Some v)
               (map snd (instances two_finished)) vs \<and>
          vs \<noteq> [] \<and>
          [''AL'' \<mapsto> 3::real, ''AP'' \<mapsto> 1, ''DAL'' \<mapsto> 3] ''AL'' =
            Some (to_double (sum_list vs / real (length vs)))) \<and>
   [''AL'' \<mapsto> 3::real, ''AP'' \<mapsto> 1, ''DAL'' \<mapsto> 3] ''AL'' = Some 3"
proof -
  let ?x = "sample_instance 0 True ''a b'' 2" and ?y = "sample_instance 1 True ''c'' 4"
  have m: "''AL'' \<in> {''AL'', ''AP'', ''DAL''}" by simp
  have xy: "map snd (instances two_finished) = [?x, ?y]"
    by (simp add: two_finished_def sample_scorer_def)
  have x: "\<exists>sub. metrics ?x ''latency'' = Some sub \<and> sub ''AL'' = Some 2"
    by (simp add: sample_instance_def sample_metrics_def)
  have y: "\<exists>sub. metrics ?y ''latency'' = Some sub \<and> sub ''AL'' = Some 4"
    by (simp add: sample_instance_def sample_metrics_def)
  note k = latency_is_mean [of two_finished "[''AL'' \<mapsto> 3, ''AP'' \<mapsto> 1, ''DAL'' \<mapsto> 3]" "''AL''" ?x ?y]
  from k two_finished_latency m have
    "\<exists>vs. list_all2 (\<lambda>seg v. \<exists>sub. metrics seg ''latency'' = Some sub \<and> sub ''AL'' = Some v)
               (map snd (instances two_finished)) vs \<and>
          vs \<noteq> [] \<and>
          [''AL'' \<mapsto> 3::real, ''AP'' \<mapsto> 1, ''DAL'' \<mapsto> 3] ''AL'' =
            Some (to_double (sum_list vs / real (length vs)))"
    by blast
  moreover from k two_finished_latency xy x y
  have "[''AL'' \<mapsto> 3::real, ''AP'' \<mapsto> 1, ''DAL'' \<mapsto> 3] ''AL'' = Some 3"
    by blast
  ultimately show ?thesis using two_finished_latency m xy x y by blast
qed

text \<open>
  As the specification states it, the property fails for the floats 0.1 and 0.2: both are
  doubles, their arithmetic mean is not, and the reported AL is the double next to it.
\<close>

theorem rounded_mean_counterexample:
  "to_double tenth = tenth \<and> to_double fifth = fifth \<and>
   map_sum id (\<lambda>results. results ''AL'') (get_latency_score tenth_fifth) =
     Inr (Some (1351079888211149 / 9007199254740992)) \<and>
   (tenth + fifth) / 2 = 10808639105689191 / 72057594037927936 \<and>
   (10808639105689191 / 72057594037927936 :: real) \<noteq> 1351079888211149 / 9007199254740992"
proof -
  have m: "(tenth + fifth) / 2 = 10808639105689191 / 72057594037927936"
    by (simp add: tenth_def fifth_def)
  have a: "to_double ((tenth + fifth) / 2) = 1351079888211149 / 9007199254740992"
    unfolding m by (rule to_double_mean_tenth_fifth)
  have s: "map_sum id (\<lambda>results. results ''AL'') (get_latency_score tenth_fifth) =
     Inr (Some (to_double ((tenth + fifth) / 2)))"
    by (simp add: get_latency_score_def latency_body_def family_mean_def latency_variant_def
        mean_def tenth_fifth_def sample_scorer_def sample_instance_def sample_metrics_def)
  have t: "to_double tenth = tenth" "to_double fifth = fifth"
    unfolding tenth_def fifth_def by (rule to_double_tenth, rule to_double_fifth)
  from t m s a show ?thesis by simp
qed

lemma latency_body_Inl:
  assumes "latency_body sc m r = Inl e"
  shows "(map_of (instances sc) 0 = None \<and> e = KeyError (KInt 0)) \<or>
         (\<exists>f. family_mean sc f m = Inl e)"
proof (cases "family_mean sc ''latency'' m")
  case (Inl e')
  with assms show ?thesis by (auto simp: latency_body_def)
next
  case (Inr a)
  show ?thesis
  proof (cases "latency_variant sc ''latency_ca'' ''_CA'' m (r(m \<mapsto> a))")
    case (Inl e')
    with assms Inr have "e' = e" by (simp add: latency_body_def)
    with latency_variant_Inl [OF Inl] show ?thesis by blast
  next
    case r1: (Inr r1)
    with assms Inr
    have "latency_variant sc ''latency_text_w_time'' '' (Time in ms)'' m r1 = Inl e"
      by (simp add: latency_body_def)
    from latency_variant_Inl [OF this] show ?thesis by blast
  qed
qed

lemma latency_loop_Inl:
  "latency_loop sc ms r = Inl e \<Longrightarrow>
     (map_of (instances sc) 0 = None \<and> e = KeyError (KInt 0)) \<or>
     (\<exists>f m. family_mean sc f m = Inl e)"
proof (induction ms arbitrary: r)
  case Nil
  then show ?case by simp
next
  case (Cons m ms)
  show ?case
  proof (cases "latency_body sc m r")
    case (Inl e')
    with Cons.prems have "e' = e" by simp
    with latency_body_Inl [OF Inl] show ?thesis by blast
  next
    case (Inr r1)
    with Cons.prems have "latency_loop sc ms r1 = Inl e" by simp
    then show ?thesis by (rule Cons.IH)
  qed
qed

lemma latency_body_no_zero:
  assumes "map_of (instances sc) 0 = None" and "instances sc \<noteq> []"
  shows "\<exists>k. latency_body sc m r = Inl (KeyError k)"
proof (cases "family_mean sc ''latency'' m")
  case (Inl e)
  from family_mean_Inl [OF Inl] assms(2) obtain k where "e = KeyError k" by blast
  with Inl show ?thesis by (simp add: latency_body_def)
next
  case (Inr a)
  with assms(1) show ?thesis by (simp add: latency_body_def latency_variant_def)
qed

text \<open>
  C10 (as amended). The family tests of \<^verbatim>\<open>get_latency_score\<close> look up key 0 of the
  instance mapping. When the mapping is not empty and 0 is not a key, the score fails with
  a \<^verbatim>\<open>KeyError\<close>, whatever the metrics of the instances are. When the mapping is
  empty, the score fails with the \<^verbatim>\<open>StatisticsError\<close> of the mean of no data,
  which comes first. When 0 is a key, the score never fails with \<^verbatim>\<open>KeyError(0)\<close>.
\<close>

theorem latency_needs_instance_zero:
  "(map_of (instances sc) 0 = None \<longrightarrow> instances sc \<noteq> [] \<longrightarrow>
      (\<exists>k. get_latency_score sc = Inl (KeyError k))) \<and>
   (instances sc = [] \<longrightarrow> get_latency_score sc = Inl StatisticsError) \<and>
   (map_of (instances sc) 0 \<noteq> None \<longrightarrow> get_latency_score sc \<noteq> Inl (KeyError (KInt 0)))"
proof (intro conjI impI)
  assume "map_of (instances sc) 0 = None" and "instances sc \<noteq> []"
  from latency_body_no_zero [OF this] obtain k
    where "latency_body sc ''AL'' Map.empty = Inl (KeyError k)" by blast
  then show "\<exists>k. get_latency_score sc = Inl (KeyError k)"
    by (simp add: get_latency_score_def)
next
  assume "instances sc = []"
  then show "get_latency_score sc = Inl StatisticsError"
    by (simp add: get_latency_score_def latency_body_def family_mean_empty)
next
  assume present: "map_of (instances sc) 0 \<noteq> None"
  show "get_latency_score sc \<noteq> Inl (KeyError (KInt 0))"
  proof
    assume "get_latency_score sc = Inl (KeyError (KInt 0))"
    then have "latency_loop sc [''AL'', ''AP'', ''DAL''] Map.empty = Inl (KeyError (KInt 0))"
      by (simp add: get_latency_score_def)
    from latency_loop_Inl [OF this] present obtain f m
      where "family_mean sc f m = Inl (KeyError (KInt 0))" by blast
    from family_mean_Inl [OF this] show False by simp
  qed
qed

theorem latency_needs_instance_zero_witness:
  "map_of (instances from_one) 0 = None \<and> instances from_one \<noteq> [] \<and>
   (\<exists>k. get_latency_score from_one = Inl (KeyError k)) \<and>
   instances empty_replay = [] \<and> get_latency_score empty_replay = Inl StatisticsError \<and>
   map_of (instances two_finished) 0 \<noteq> None \<and>
   get_latency_score two_finished \<noteq> Inl (KeyError (KInt 0))"
proof -
  have a: "map_of (instances from_one) 0 = None" "instances from_one \<noteq> []"
    by (simp_all add: from_one_def sample_scorer_def)
  have b: "instances empty_replay = []"
    by (simp add: empty_replay_def sample_scorer_def)
  have c: "map_of (instances two_finished) 0 \<noteq> None"
    by (simp add: two_finished_def sample_scorer_def)
  from latency_needs_instance_zero [of from_one] a
  have 1: "\<exists>k. get_latency_score from_one = Inl (KeyError k)" by blast
  from latency_needs_instance_zero [of empty_replay] b
  have 2: "get_latency_score empty_replay = Inl StatisticsError" by blast
  from latency_needs_instance_zero [of two_finished] c
  have 3: "get_latency_score two_finished \<noteq> Inl (KeyError (KInt 0))" by blast
  from a b c 1 2 3 show ?thesis by blast
qed

text \<open>
  As the specification states it, the property fails on the scorer reconstructed from an empty log: 0 is not a key
  of its mapping, and the latency score fails with \<^verbatim>\<open>StatisticsError\<close>, which is
  not a look-up error.
\<close>

theorem latency_empty_mapping_counterexample:
  "from_log sample_from_json (sample_open []) ''log'' ''text'' = Inr empty_replay \<and>
   map_of (instances empty_replay) 0 = None \<and>
   get_latency_score empty_replay = Inl StatisticsError \<and>
   \<not> is_lookup_error StatisticsError"
  by (simp add: from_log_def sample_open_def empty_replay_def sample_scorer_def bare_scorer_def
      get_latency_score_def latency_body_def family_mean_def mean_def is_lookup_error_def)

subsection \<open>Reconstruction from a log\<close>

lemma read_instances_Inr:
  "read_instances fj ls d = Inr d' \<Longrightarrow>
     \<exists>xs. map (\<lambda>l. fj (strip l)) ls = map Inr xs \<and> d' = insert_all xs d"
proof (induction ls arbitrary: d)
  case Nil
  then show ?case by (simp add: insert_all_def)
next
  case (Cons l ls)
  from Cons.prems obtain x where x: "fj (strip l) = Inr x"
    and rest: "read_instances fj ls (AList.update (index x) x d) = Inr d'"
    by (auto split: sum.splits)
  from Cons.IH [OF rest] obtain xs where
    "map (\<lambda>l. fj (strip l)) ls = map Inr xs" "d' = insert_all xs (AList.update (index x) x d)"
    by blast
  with x have "map (\<lambda>l. fj (strip l)) (l # ls) = map Inr (x # xs) \<and> d' = insert_all (x # xs) d"
    by (simp add: insert_all_def)
  then show ?case by blast
qed

lemma read_instances_total:
  "map (\<lambda>l. fj (strip l)) ls = map Inr xs \<Longrightarrow> read_instances fj ls d = Inr (insert_all xs d)"
  by (induction ls arbitrary: d xs) (auto simp: insert_all_def)

lemma insert_all_keys:
  "fst ` set (insert_all xs d) = fst ` set d \<union> index ` set xs"
  unfolding insert_all_def
  by (induction xs arbitrary: d) (auto simp: dom_update)

lemma insert_all_distinct:
  "distinct (map fst d) \<Longrightarrow> distinct (map fst (insert_all xs d))"
  unfolding insert_all_def
  by (induction xs arbitrary: d) (auto simp: distinct_update)

lemma insert_all_length:
  "length (insert_all xs []) = card (index ` set xs)"
proof -
  have "distinct (map fst (insert_all xs []))" by (rule insert_all_distinct) simp
  from distinct_card [OF this]
  have "length (map fst (insert_all xs [])) = card (set (map fst (insert_all xs [])))"
    by simp
  also have "set (map fst (insert_all xs [])) = index ` set xs"
    using insert_all_keys [of xs "[]"] by simp
  finally show ?thesis by simp
qed

text \<open>
  C5 (as amended). When \<^verbatim>\<open>from_log\<close> with the text target type returns a scorer,
  every line of the file was deserialized, \<open>start_index\<close> is 0 and \<open>end_index\<close> is the
  number of different indices among the deserialized instances. That number is at most the
  number of lines, and equal to it exactly when no two instances have the same index.
\<close>

theorem from_log_range:
  assumes "from_log from_json open_file log_path ''text'' = Inr sc"
  shows "\<exists>ls xs. open_file log_path = Inr ls \<and>
           map (\<lambda>l. from_json TextOutputInstance (strip l)) ls = map Inr xs \<and>
           start_index sc = Some 0 \<and>
           end_index sc = Some (int (card (index ` set xs))) \<and>
           card (index ` set xs) \<le> length ls \<and>
           (card (index ` set xs) = length ls \<longleftrightarrow> distinct (map index xs))"
proof -
  from assms obtain ls d where ls: "open_file log_path = Inr ls"
    and d: "read_instances (from_json TextOutputInstance) ls [] = Inr d"
    and sc: "sc = (bare_scorer None)\<lparr>start_index := Some 0,
               end_index := Some (int (length (map fst d))), instances := d\<rparr>"
    by (auto simp: from_log_def split: sum.splits)
  from read_instances_Inr [OF d] obtain xs where
    xs: "map (\<lambda>l. from_json TextOutputInstance (strip l)) ls = map Inr xs"
    and d': "d = insert_all xs []" by blast
  have len: "length d = card (index ` set xs)"
    unfolding d' by (rule insert_all_length)
  have eq: "length ls = length xs"
    using xs by (metis length_map)
  have le: "card (index ` set xs) \<le> length xs"
    using card_length [of "map index xs"] by simp
  have iff: "card (index ` set xs) = length xs \<longleftrightarrow> distinct (map index xs)"
    using distinct_card [of "map index xs"] card_distinct [of "map index xs"] by auto
  from ls xs sc len eq le iff show ?thesis by auto
qed

lemma two_line_replay:
  "from_log sample_from_json (sample_open two_line_log) ''log'' ''text'' =
     Inr (sample_scorer [(0, sample_instance 0 True ''a'' 2), (1, sample_instance 1 True ''b'' 2)])"
  by (simp add: from_log_def sample_open_def sample_from_json_def strip_def py_isspace_def
      bare_scorer_def sample_scorer_def sample_instance_def two_line_log_def)

theorem from_log_range_witness:
  "from_log sample_from_json (sample_open two_line_log) ''log'' ''text'' =
     Inr (sample_scorer [(0, sample_instance 0 True ''a'' 2), (1, sample_instance 1 True ''b'' 2)]) \<and>
   (\<exists>ls xs. sample_open two_line_log ''log'' = Inr ls \<and>
           map (\<lambda>l. sample_from_json TextOutputInstance (strip l)) ls = map Inr xs \<and>
           start_index (sample_scorer [(0, sample_instance 0 True ''a'' 2), (1, sample_instance 1 True ''b'' 2)]) = Some 0 \<and>
           end_index (sample_scorer [(0, sample_instance 0 True ''a'' 2), (1, sample_instance 1 True ''b'' 2)]) =
             Some (int (card (index ` set xs))) \<and>
           card (index ` set xs) \<le> length ls \<and>
           (card (index ` set xs) = length ls \<longleftrightarrow> distinct (map index xs)))"
  using two_line_replay from_log_range [OF two_line_replay] by (rule conjI)

text \<open>
  As the specification states it, the property fails on a log of two lines with the same index: the second instance
  replaces the first and \<open>end_index\<close> is 1, not 2.
\<close>

theorem from_log_duplicate_counterexample:
  "from_log sample_from_json (sample_open duplicate_log) ''log'' ''text'' =
     Inr (sample_scorer [(0, sample_instance 0 True ''b'' 2)]) \<and>
   end_index (sample_scorer [(0, sample_instance 0 True ''b'' 2)]) = Some 1 \<and>
   length duplicate_log = 2"
  by (simp add: from_log_def sample_open_def sample_from_json_def strip_def py_isspace_def
      bare_scorer_def sample_scorer_def sample_instance_def duplicate_log_def)

subsection \<open>Translation list\<close>

lemma for_indices_total:
  "\<forall>i \<in> set idx. map_of d i \<noteq> None \<Longrightarrow>
     for_indices d keep out idx =
       Inr (map (\<lambda>i. out i (the (map_of d i))) (filter (\<lambda>i. keep (the (map_of d i))) idx))"
  by (induction idx) auto

lemma for_indices_dom:
  "for_indices d keep out idx = Inr r \<Longrightarrow> \<forall>i \<in> set idx. map_of d i \<noteq> None"
  by (induction idx arbitrary: r) (auto split: option.splits sum.splits)

lemma update_existing_keys:
  "map_of d k = Some x \<Longrightarrow> map fst (AList.update k v d) = map fst d"
  by (induction d) (auto split: if_splits)

lemma eval_unfinished_Inr:
  "eval_unfinished sle nf d = Inr d' \<Longrightarrow> distinct nf \<Longrightarrow>
     map fst d' = map fst d \<and>
     (\<forall>i. map_of d' i = (if i \<in> set nf then eval_at sle (map_of d i) else map_of d i)) \<and>
     (\<forall>i \<in> set nf. eval_at sle (map_of d i) \<noteq> None)"
proof (induction nf arbitrary: d)
  case Nil
  then show ?case by simp
next
  case (Cons j nf)
  from Cons.prems(1) obtain x x' where x: "map_of d j = Some x" and x': "sle x = Inr x'"
    and rest: "eval_unfinished sle nf (AList.update j x' d) = Inr d'"
    by (auto split: option.splits sum.splits)
  from Cons.prems(2) have dn: "distinct nf" and jn: "j \<notin> set nf" by simp_all
  note ih = Cons.IH [OF rest dn]
  have keys: "map fst d' = map fst d"
    using ih update_existing_keys [OF x] by simp
  have at: "eval_at sle (map_of d j) = Some x'"
    using x x' by (simp add: eval_at_def)
  have other: "\<And>i. i \<noteq> j \<Longrightarrow> map_of (AList.update j x' d) i = map_of d i"
    by (simp add: update_conv')
  have same: "map_of (AList.update j x' d) j = Some x'"
    by (simp add: update_conv')
  have vals: "map_of d' i = (if i \<in> set (j # nf) then eval_at sle (map_of d i) else map_of d i)" for i
  proof (cases "i = j")
    case True
    with ih jn same at show ?thesis by simp
  next
    case False
    with ih other [OF False] show ?thesis by simp
  qed
  have defined: "\<forall>i \<in> set (j # nf). eval_at sle (map_of d i) \<noteq> None"
  proof
    fix i assume i: "i \<in> set (j # nf)"
    show "eval_at sle (map_of d i) \<noteq> None"
    proof (cases "i = j")
      case True
      with at show ?thesis by simp
    next
      case False
      with i have "i \<in> set nf" by simp
      with ih have "eval_at sle (map_of (AList.update j x' d) i) \<noteq> None" by blast
      with other [OF False] show ?thesis by simp
    qed
  qed
  from keys vals defined show ?case by blast
qed

lemma eval_unfinished_total:
  "distinct nf \<Longrightarrow> \<forall>i \<in> set nf. eval_at sle (map_of d i) \<noteq> None \<Longrightarrow>
     \<exists>d'. eval_unfinished sle nf d = Inr d'"
proof (induction nf arbitrary: d)
  case Nil
  then show ?case by simp
next
  case (Cons j nf)
  from Cons.prems(2) obtain x x' where x: "map_of d j = Some x" and x': "sle x = Inr x'"
    by (auto simp: eval_at_def split: option.splits sum.splits)
  from Cons.prems(1) have dn: "distinct nf" and jn: "j \<notin> set nf" by simp_all
  have "\<forall>i \<in> set nf. eval_at sle (map_of (AList.update j x' d) i) \<noteq> None"
  proof
    fix i assume i: "i \<in> set nf"
    with jn have "i \<noteq> j" by blast
    then have "map_of (AList.update j x' d) i = map_of d i" by (simp add: update_conv')
    with Cons.prems(2) i show "eval_at sle (map_of (AList.update j x' d) i) \<noteq> None" by simp
  qed
  from Cons.IH [OF dn this] x x' show ?case by simp
qed

lemma filter_the_case:
  "\<forall>i \<in> set idx. map_of d i \<noteq> None \<Longrightarrow>
     filter (\<lambda>i. keep (the (map_of d i))) idx =
     filter (\<lambda>i. case map_of d i of None \<Rightarrow> False | Some x \<Rightarrow> keep x) idx"
  by (rule filter_cong) auto

lemma eval_unfinished_dom:
  assumes "eval_unfinished sle nf d = Inr d'" and "distinct nf"
  shows "map_of d' i \<noteq> None \<longleftrightarrow> map_of d i \<noteq> None"
proof -
  from eval_unfinished_Inr [OF assms] have "map fst d' = map fst d" by blast
  then have "fst ` set d' = fst ` set d" by (metis set_map)
  then show ?thesis by (simp add: map_of_eq_None_iff)
qed

lemma unfinished_before_distinct: "distinct idx \<Longrightarrow> distinct (unfinished_before sc idx)"
  by (simp add: unfinished_before_def)

lemma get_indices_distinct: "get_indices sc = Inr idx \<Longrightarrow> distinct idx"
  by (auto simp: get_indices_def split: option.splits)

lemma get_translation_list_char:
  assumes idx: "get_indices sc = Inr idx"
    and dom: "\<forall>i \<in> set idx. map_of (instances sc) i \<noteq> None"
    and ev: "eval_unfinished sle (unfinished_before sc idx) (instances sc) = Inr d'"
  shows "get_translation_list sle sc =
     Inr (map (\<lambda>i. prediction (the (map_of d' i))) idx, sc\<lparr>instances := d'\<rparr>,
          eos_lines (unfinished_before sc idx) @ empty_lines (empty_in sc idx))"
proof -
  let ?d = "instances sc"
  have nf: "for_indices ?d (\<lambda>x. \<not> finish_prediction x) (\<lambda>i x. i) idx =
      Inr (unfinished_before sc idx)"
    unfolding for_indices_total [OF dom] unfinished_before_def
    using filter_the_case [OF dom, of "\<lambda>x. \<not> finish_prediction x"] by simp
  have eh: "for_indices ?d (\<lambda>x. prediction x = []) (\<lambda>i x. str_int i) idx =
      Inr (map str_int (empty_in sc idx))"
    using filter_the_case [OF dom, of "\<lambda>x. prediction x = []"]
    by (simp add: for_indices_total [OF dom] empty_in_def)
  have dist: "distinct (unfinished_before sc idx)"
    using get_indices_distinct [OF idx] by (rule unfinished_before_distinct)
  have dom': "\<forall>i \<in> set idx. map_of d' i \<noteq> None"
    using dom eval_unfinished_dom [OF ev dist] by simp
  have tr: "for_indices d' (\<lambda>x. True) (\<lambda>i x. prediction x) idx =
      Inr (map (\<lambda>i. prediction (the (map_of d' i))) idx)"
    unfolding for_indices_total [OF dom'] by simp
  have ev': "(if unfinished_before sc idx \<noteq> []
        then eval_unfinished sle (unfinished_before sc idx) ?d else Inr ?d) = Inr d'"
    using ev by (cases "unfinished_before sc idx") auto
  show ?thesis
    unfolding get_translation_list_def
    by (simp add: idx nf eh ev' tr eos_lines_def empty_lines_def)
qed

lemma get_translation_list_Inr:
  assumes "get_translation_list sle sc = Inr (tr, sc', w)"
  shows "\<exists>idx d'. get_indices sc = Inr idx \<and> (\<forall>i \<in> set idx. map_of (instances sc) i \<noteq> None) \<and>
     eval_unfinished sle (unfinished_before sc idx) (instances sc) = Inr d' \<and>
     tr = map (\<lambda>i. prediction (the (map_of d' i))) idx \<and> sc' = sc\<lparr>instances := d'\<rparr> \<and>
     w = eos_lines (unfinished_before sc idx) @ empty_lines (empty_in sc idx)"
proof -
  from assms obtain idx where idx: "get_indices sc = Inr idx"
    by (auto simp: get_translation_list_def split: sum.splits)
  from assms idx obtain nf where
    nf: "for_indices (instances sc) (\<lambda>x. \<not> finish_prediction x) (\<lambda>i x. i) idx = Inr nf"
    by (auto simp: get_translation_list_def split: sum.splits)
  from for_indices_dom [OF nf] have dom: "\<forall>i \<in> set idx. map_of (instances sc) i \<noteq> None" .
  have nf': "nf = unfinished_before sc idx"
    using nf unfolding for_indices_total [OF dom] unfinished_before_def
    using filter_the_case [OF dom, of "\<lambda>x. \<not> finish_prediction x"] by simp
  have eh: "for_indices (instances sc) (\<lambda>x. prediction x = []) (\<lambda>i x. str_int i) idx =
      Inr (map str_int (empty_in sc idx))"
    using filter_the_case [OF dom, of "\<lambda>x. prediction x = []"]
    by (simp add: for_indices_total [OF dom] empty_in_def)
  from assms idx nf eh obtain d' where
    "(if nf \<noteq> [] then eval_unfinished sle nf (instances sc) else Inr (instances sc)) = Inr d'"
    by (auto simp: get_translation_list_def split: sum.splits)
  then have ev: "eval_unfinished sle (unfinished_before sc idx) (instances sc) = Inr d'"
    unfolding nf' by (cases "unfinished_before sc idx") auto
  from get_translation_list_char [OF idx dom ev] assms idx dom ev show ?thesis by auto
qed

lemma recovered_lookup:
  assumes ev: "eval_unfinished sle (unfinished_before sc idx) (instances sc) = Inr d'"
    and dist: "distinct idx"
    and i: "i \<in> set idx" and x: "map_of (instances sc) i = Some x"
    and x': "recovered sle x = Inr x'"
  shows "map_of d' i = Some x'"
proof -
  note r = eval_unfinished_Inr [OF ev unfinished_before_distinct [OF dist]]
  show ?thesis
  proof (cases "finish_prediction x")
    case True
    with i x have "i \<notin> set (unfinished_before sc idx)"
      by (simp add: unfinished_before_def)
    with r x x' True show ?thesis by (simp add: recovered_def)
  next
    case False
    with i x have "i \<in> set (unfinished_before sc idx)"
      by (simp add: unfinished_before_def)
    with r x x' False show ?thesis by (simp add: recovered_def eval_at_def)
  qed
qed

lemma unfinished_defined:
  assumes "\<forall>i \<in> set idx. \<exists>x x'. map_of (instances sc) i = Some x \<and> recovered sle x = Inr x'"
  shows "\<forall>i \<in> set (unfinished_before sc idx). eval_at sle (map_of (instances sc) i) \<noteq> None"
proof
  fix i assume "i \<in> set (unfinished_before sc idx)"
  then have i: "i \<in> set idx"
    and nf: "case map_of (instances sc) i of None \<Rightarrow> False | Some x \<Rightarrow> \<not> finish_prediction x"
    by (simp_all add: unfinished_before_def)
  from assms i obtain x x' where "map_of (instances sc) i = Some x" "recovered sle x = Inr x'"
    by blast
  with nf show "eval_at sle (map_of (instances sc) i) \<noteq> None"
    by (simp add: recovered_def eval_at_def)
qed

lemma score_after_translation:
  assumes g: "get_translation_list sle sc = Inr (tr, sc', w)"
    and r: "get_reference_list sc' = Inr refs"
  shows "score corpus_bleu sle sc =
     (case corpus_bleu tr [refs] (sacrebleu_tokenizer sc') of
        Inl e \<Rightarrow> Inl e
      | Inr b \<Rightarrow>
          (case get_latency_score sc' of
             Inl e \<Rightarrow> Inl e
           | Inr latency \<Rightarrow>
               Inr ([''Quality'' \<mapsto> [''BLEU'' \<mapsto> b], ''Latency'' \<mapsto> latency], sc', w)))"
  unfolding score_def get_quality_score_def g
  by (simp add: r split: sum.splits)

text \<open>
  C3. When every index of the range is a key of the instance mapping and
  \<^verbatim>\<open>sentence_level_eval\<close> returns on each unfinished instance, building the
  translation list returns; each unfinished instance is in the resulting scorer as
  \<^verbatim>\<open>sentence_level_eval\<close> left it, each finished instance is unchanged, and the
  list holds, index by index, the prediction of every instance of the resulting scorer.
  \<^verbatim>\<open>score\<close> then hands these predictions, with the references of the same
  instances, to \<^verbatim>\<open>corpus_bleu\<close> and aggregates the latency over the resulting
  instances: it returns the two sub-mappings unless \<^verbatim>\<open>corpus_bleu\<close> or the
  latency aggregation raises. The flag \<^verbatim>\<open>finish_prediction\<close> alone never makes
  scoring fail.
\<close>

theorem unfinished_forced_recovery:
  assumes idx: "get_indices sc = Inr idx"
    and ok: "\<forall>i \<in> set idx. \<exists>x x'. map_of (instances sc) i = Some x \<and> recovered sle x = Inr x'"
  shows "\<exists>tr sc' w refs. get_translation_list sle sc = Inr (tr, sc', w) \<and>
           list_all2 (\<lambda>i t. \<exists>x x'. map_of (instances sc) i = Some x \<and> recovered sle x = Inr x' \<and>
                              map_of (instances sc') i = Some x' \<and> t = prediction x') idx tr \<and>
           list_all2 (\<lambda>i t. \<exists>x'. map_of (instances sc') i = Some x' \<and> t = reference x') idx refs \<and>
           score corpus_bleu sle sc =
             (case corpus_bleu tr [refs] (sacrebleu_tokenizer sc) of
                Inl e \<Rightarrow> Inl e
              | Inr b \<Rightarrow>
                  (case get_latency_score sc' of
                     Inl e \<Rightarrow> Inl e
                   | Inr latency \<Rightarrow>
                       Inr ([''Quality'' \<mapsto> [''BLEU'' \<mapsto> b], ''Latency'' \<mapsto> latency], sc', w)))"
proof -
  have dist: "distinct idx" using idx by (rule get_indices_distinct)
  from ok have dom: "\<forall>i \<in> set idx. map_of (instances sc) i \<noteq> None" by auto
  from eval_unfinished_total [OF unfinished_before_distinct [OF dist] unfinished_defined [OF ok]]
  obtain d' where ev: "eval_unfinished sle (unfinished_before sc idx) (instances sc) = Inr d'"
    by blast
  let ?tr = "map (\<lambda>i. prediction (the (map_of d' i))) idx"
  let ?refs = "map (\<lambda>i. reference (the (map_of d' i))) idx"
  let ?sc' = "sc\<lparr>instances := d'\<rparr>"
  let ?w = "eos_lines (unfinished_before sc idx) @ empty_lines (empty_in sc idx)"
  have g: "get_translation_list sle sc = Inr (?tr, ?sc', ?w)"
    using idx dom ev by (rule get_translation_list_char)
  have dom': "\<forall>i \<in> set idx. map_of d' i \<noteq> None"
    using dom eval_unfinished_dom [OF ev unfinished_before_distinct [OF dist]] by simp
  have p: "list_all2 (\<lambda>i t. \<exists>x x'. map_of (instances sc) i = Some x \<and> recovered sle x = Inr x' \<and>
                              map_of (instances ?sc') i = Some x' \<and> t = prediction x') idx ?tr"
  proof (rule list_all2_all_nthI)
    show "length idx = length ?tr" by simp
  next
    fix k assume k: "k < length idx"
    then have i: "idx ! k \<in> set idx" by simp
    with ok obtain x x' where x: "map_of (instances sc) (idx ! k) = Some x"
      and x': "recovered sle x = Inr x'" by blast
    from recovered_lookup [OF ev dist i x x'] have "map_of d' (idx ! k) = Some x'" .
    with x x' k show "\<exists>x x'. map_of (instances sc) (idx ! k) = Some x \<and> recovered sle x = Inr x' \<and>
        map_of (instances ?sc') (idx ! k) = Some x' \<and> ?tr ! k = prediction x'"
      by simp
  qed
  have q: "list_all2 (\<lambda>i t. \<exists>x'. map_of (instances ?sc') i = Some x' \<and> t = reference x') idx ?refs"
  proof (rule list_all2_all_nthI)
    show "length idx = length ?refs" by simp
  next
    fix k assume k: "k < length idx"
    then have "idx ! k \<in> set idx" by simp
    with dom' obtain x' where "map_of d' (idx ! k) = Some x'" by blast
    with k show "\<exists>x'. map_of (instances ?sc') (idx ! k) = Some x' \<and> ?refs ! k = reference x'"
      by simp
  qed
  have gi: "get_indices ?sc' = Inr idx"
    using idx by (simp add: get_indices_def split: option.splits)
  have r: "get_reference_list ?sc' = Inr ?refs"
    unfolding get_reference_list_def gi by (simp add: for_indices_total [OF dom'])
  have s: "score corpus_bleu sle sc =
             (case corpus_bleu ?tr [?refs] (sacrebleu_tokenizer sc) of
                Inl e \<Rightarrow> Inl e
              | Inr b \<Rightarrow>
                  (case get_latency_score ?sc' of
                     Inl e \<Rightarrow> Inl e
                   | Inr latency \<Rightarrow>
                       Inr ([''Quality'' \<mapsto> [''BLEU'' \<mapsto> b], ''Latency'' \<mapsto> latency], ?sc', ?w)))"
    using score_after_translation [OF g r, of corpus_bleu] by simp
  from g p q s show ?thesis by blast
qed

lemma starved_indices: "get_indices starved = Inr [0, 1]"
  by (simp add: get_indices_def starved_def sample_scorer_def bare_scorer_def upto.simps)

lemma starved_ok:
  "\<forall>i \<in> set [0, 1]. \<exists>x x'. map_of (instances starved) i = Some x \<and> recovered sample_eval x = Inr x'"
  by (simp add: starved_def sample_scorer_def recovered_def sample_eval_def sample_instance_def)

lemma starved_run:
  "get_translation_list sample_eval starved =
     Inr ([''a b'', ''a''], starved_after, [eos_warning, ''1'', empty_warning, ''1''])"
  by (simp add: get_translation_list_def get_indices_def starved_def starved_after_def
      sample_scorer_def bare_scorer_def sample_instance_def sample_eval_def str_int_def
      str_nat.simps upto.simps)

lemma starved_bleu: "sample_bleu [''a b'', ''a''] [[''a b'', ''a b'']] ''13a'' = Inr 0"
  by (simp add: sample_bleu_def bleu_tokens_def py_isspace_def ngram_stats_def clipped_def
      brevity_def Let_def)

lemma starved_after_latency:
  "get_latency_score starved_after = Inr [''AL'' \<mapsto> 3, ''AP'' \<mapsto> 1, ''DAL'' \<mapsto> 3]"
  by (simp add: get_latency_score_def latency_body_def family_mean_def latency_variant_def
      mean_def to_double_small starved_after_def sample_scorer_def sample_instance_def
      sample_metrics_def)

theorem unfinished_forced_recovery_witness:
  "get_indices starved = Inr [0, 1] \<and>
   get_translation_list sample_eval starved =
     Inr ([''a b'', ''a''], starved_after, [eos_warning, ''1'', empty_warning, ''1'']) \<and>
   map_of (instances starved_after) 1 =
     Some ((sample_instance 1 False [] 2)\<lparr>prediction := ''a'', metrics := sample_metrics 4\<rparr>) \<and>
   score sample_bleu sample_eval starved =
     Inr ([''Quality'' \<mapsto> [''BLEU'' \<mapsto> 0],
           ''Latency'' \<mapsto> [''AL'' \<mapsto> 3, ''AP'' \<mapsto> 1, ''DAL'' \<mapsto> 3]],
          starved_after, [eos_warning, ''1'', empty_warning, ''1''])"
proof -
  from unfinished_forced_recovery [OF starved_indices starved_ok, of sample_bleu]
  obtain tr sc' w refs where g: "get_translation_list sample_eval starved = Inr (tr, sc', w)"
    and l: "list_all2 (\<lambda>i t. \<exists>x'. map_of (instances sc') i = Some x' \<and> t = reference x')
              [0, 1] refs"
    and s: "score sample_bleu sample_eval starved =
             (case sample_bleu tr [refs] (sacrebleu_tokenizer starved) of
                Inl e \<Rightarrow> Inl e
              | Inr b \<Rightarrow>
                  (case get_latency_score sc' of
                     Inl e \<Rightarrow> Inl e
                   | Inr latency \<Rightarrow>
                       Inr ([''Quality'' \<mapsto> [''BLEU'' \<mapsto> b], ''Latency'' \<mapsto> latency], sc', w)))"
    by blast
  from g have tr: "tr = [''a b'', ''a'']" and sc': "sc' = starved_after"
    and w: "w = [eos_warning, ''1'', empty_warning, ''1'']"
    unfolding starved_run by simp_all
  from l have refs: "refs = [''a b'', ''a b'']"
    unfolding sc'
    by (auto simp: list_all2_Cons1 starved_after_def sample_scorer_def sample_instance_def)
  have t: "sacrebleu_tokenizer starved = ''13a''"
    by (simp add: starved_def sample_scorer_def bare_scorer_def)
  have one: "map_of (instances starved_after) 1 =
     Some ((sample_instance 1 False [] 2)\<lparr>prediction := ''a'', metrics := sample_metrics 4\<rparr>)"
    by (simp add: starved_after_def sample_scorer_def)
  from s have "score sample_bleu sample_eval starved =
     Inr ([''Quality'' \<mapsto> [''BLEU'' \<mapsto> 0],
           ''Latency'' \<mapsto> [''AL'' \<mapsto> 3, ''AP'' \<mapsto> 1, ''DAL'' \<mapsto> 3]],
          starved_after, [eos_warning, ''1'', empty_warning, ''1''])"
    unfolding tr sc' w refs t starved_bleu starved_after_latency by simp
  with starved_indices starved_run one show ?thesis by simp
qed

lemma empty_in_preserved:
  assumes ev: "eval_unfinished sle (unfinished_before sc idx) (instances sc) = Inr d'"
    and dist: "distinct idx"
    and keep: "\<forall>i \<in> set (unfinished_before sc idx). \<forall>x x'. map_of (instances sc) i = Some x \<longrightarrow>
                 sle x = Inr x' \<longrightarrow> (prediction x' = [] \<longleftrightarrow> prediction x = [])"
  shows "empty_in (sc\<lparr>instances := d'\<rparr>) idx = empty_in sc idx"
proof -
  note r = eval_unfinished_Inr [OF ev unfinished_before_distinct [OF dist]]
  have "(case map_of d' i of None \<Rightarrow> False | Some x \<Rightarrow> prediction x = []) =
        (case map_of (instances sc) i of None \<Rightarrow> False | Some x \<Rightarrow> prediction x = [])" for i
  proof (cases "i \<in> set (unfinished_before sc idx)")
    case False
    with r show ?thesis by simp
  next
    case True
    with r have d': "map_of d' i = eval_at sle (map_of (instances sc) i)"
      and ne: "eval_at sle (map_of (instances sc) i) \<noteq> None" by simp_all
    from ne obtain x x' where x: "map_of (instances sc) i = Some x" and x': "sle x = Inr x'"
      by (auto simp: eval_at_def split: option.splits sum.splits)
    from keep True x x' have "prediction x' = [] \<longleftrightarrow> prediction x = []" by blast
    with d' x x' show ?thesis by (simp add: eval_at_def)
  qed
  then show ?thesis by (simp add: empty_in_def)
qed

text \<open>
  C4 (as amended). Whenever \<^verbatim>\<open>get_translation_list\<close> returns, the lines it logged
  are the end-of-sentence warning for the indices whose instance was unfinished, followed
  by the empty-hypothesis warning for exactly the indices whose instance had an empty
  prediction before the forced evaluation ran; the translation list holds the prediction of
  every index of the range, empty ones included. Those indices are the ones with an empty
  prediction after the forced evaluation whenever \<^verbatim>\<open>sentence_level_eval\<close> leaves
  the emptiness of the prediction of each unfinished instance as it was.
\<close>

theorem empty_hypotheses_logged:
  assumes "get_translation_list sle sc = Inr (tr, sc', w)"
  shows "\<exists>idx. get_indices sc = Inr idx \<and>
           w = eos_lines (unfinished_before sc idx) @ empty_lines (empty_in sc idx) \<and>
           list_all2 (\<lambda>i t. \<exists>x'. map_of (instances sc') i = Some x' \<and> t = prediction x') idx tr \<and>
           ((\<forall>i \<in> set (unfinished_before sc idx). \<forall>x x'. map_of (instances sc) i = Some x \<longrightarrow>
                 sle x = Inr x' \<longrightarrow> (prediction x' = [] \<longleftrightarrow> prediction x = [])) \<longrightarrow>
            empty_in sc' idx = empty_in sc idx)"
proof -
  from get_translation_list_Inr [OF assms] obtain idx d' where idx: "get_indices sc = Inr idx"
    and dom: "\<forall>i \<in> set idx. map_of (instances sc) i \<noteq> None"
    and ev: "eval_unfinished sle (unfinished_before sc idx) (instances sc) = Inr d'"
    and tr: "tr = map (\<lambda>i. prediction (the (map_of d' i))) idx"
    and sc': "sc' = sc\<lparr>instances := d'\<rparr>"
    and w: "w = eos_lines (unfinished_before sc idx) @ empty_lines (empty_in sc idx)"
    by blast
  have dist: "distinct idx" using idx by (rule get_indices_distinct)
  have dom': "\<forall>i \<in> set idx. map_of d' i \<noteq> None"
    using dom eval_unfinished_dom [OF ev unfinished_before_distinct [OF dist]] by simp
  have "list_all2 (\<lambda>i t. \<exists>x'. map_of d' i = Some x' \<and> t = prediction x') idx tr"
    unfolding tr
  proof (rule list_all2_all_nthI)
    show "length idx = length (map (\<lambda>i. prediction (the (map_of d' i))) idx)" by simp
  next
    fix k assume k: "k < length idx"
    then have "idx ! k \<in> set idx" by simp
    with dom' obtain x' where "map_of d' (idx ! k) = Some x'" by blast
    with k show "\<exists>x'. map_of d' (idx ! k) = Some x' \<and>
        map (\<lambda>i. prediction (the (map_of d' i))) idx ! k = prediction x'"
      by simp
  qed
  with idx w sc' empty_in_preserved [OF ev dist] show ?thesis by auto
qed

lemma starved_metrics_run:
  "get_translation_list metrics_eval starved =
     Inr ([''a b'', []], starved_evaluated, [eos_warning, ''1'', empty_warning, ''1''])"
  by (simp add: get_translation_list_def get_indices_def starved_def starved_evaluated_def
      sample_scorer_def bare_scorer_def sample_instance_def metrics_eval_def str_int_def
      str_nat.simps upto.simps)

lemma metrics_eval_keeps:
  "\<forall>i \<in> set (unfinished_before starved idx). \<forall>x x'. map_of (instances starved) i = Some x \<longrightarrow>
     metrics_eval x = Inr x' \<longrightarrow> (prediction x' = [] \<longleftrightarrow> prediction x = [])"
  by (auto simp: metrics_eval_def)

theorem empty_hypotheses_logged_witness:
  "get_translation_list metrics_eval starved =
     Inr ([''a b'', []], starved_evaluated, [eos_warning, ''1'', empty_warning, ''1'']) \<and>
   (\<exists>idx. get_indices starved = Inr idx \<and>
      [eos_warning, ''1'', empty_warning, ''1''] =
        eos_lines (unfinished_before starved idx) @ empty_lines (empty_in starved idx) \<and>
      list_all2 (\<lambda>i t. \<exists>x'. map_of (instances starved_evaluated) i = Some x' \<and> t = prediction x')
        idx [''a b'', []] \<and>
      empty_in starved_evaluated idx = empty_in starved idx)"
proof -
  from empty_hypotheses_logged [OF starved_metrics_run] metrics_eval_keeps
  have "\<exists>idx. get_indices starved = Inr idx \<and>
      [eos_warning, ''1'', empty_warning, ''1''] =
        eos_lines (unfinished_before starved idx) @ empty_lines (empty_in starved idx) \<and>
      list_all2 (\<lambda>i t. \<exists>x'. map_of (instances starved_evaluated) i = Some x' \<and> t = prediction x')
        idx [''a b'', []] \<and>
      empty_in starved_evaluated idx = empty_in starved idx"
    by blast
  with starved_metrics_run show ?thesis by (rule conjI)
qed

text \<open>
  As the specification states it, the property fails when \<^verbatim>\<open>sentence_level_eval\<close> writes the prediction:
  instance 0 is logged as an empty hypothesis, and after the forced evaluation no instance
  has an empty prediction.
\<close>

theorem starved_logged_counterexample:
  "get_translation_list sample_eval starved_one =
     Inr ([''a''], starved_one_after, [eos_warning, ''0'', empty_warning, ''0'']) \<and>
   empty_in starved_one [0] = [0] \<and> empty_in starved_one_after [0] = []"
  by (simp add: get_translation_list_def get_indices_def starved_one_def starved_one_after_def
      sample_scorer_def bare_scorer_def sample_instance_def sample_eval_def str_int_def
      str_nat.simps upto.simps empty_in_def)

subsection \<open>Construction and reset\<close>

lemma reset_loop_Inr:
  "reset_loop mk sc idx = Inr sc' \<Longrightarrow> distinct idx \<Longrightarrow>
     sc' = sc\<lparr>instances := instances sc'\<rparr> \<and>
     map fst (instances sc') =
       map fst (instances sc) @ filter (\<lambda>i. i \<notin> fst ` set (instances sc)) idx \<and>
     (\<forall>i \<in> set idx. \<exists>c a x. instance_class sc = Some c \<and> args sc = Some a \<and>
        mk c i (dataloader sc) a = Inr x \<and> map_of (instances sc') i = Some x) \<and>
     (\<forall>i. i \<notin> set idx \<longrightarrow> map_of (instances sc') i = map_of (instances sc) i)"
proof (induction idx arbitrary: sc)
  case Nil
  then show ?case by simp
next
  case (Cons j idx)
  from Cons.prems(1) obtain c a x where c: "instance_class sc = Some c" and a: "args sc = Some a"
    and x: "mk c j (dataloader sc) a = Inr x"
    and rest: "reset_loop mk (sc\<lparr>instances := AList.update j x (instances sc)\<rparr>) idx = Inr sc'"
    by (auto split: option.splits sum.splits)
  from Cons.prems(2) have dn: "distinct idx" and jn: "j \<notin> set idx" by simp_all
  let ?sc1 = "sc\<lparr>instances := AList.update j x (instances sc)\<rparr>"
  note ih = Cons.IH [OF rest dn]
  from ih have "sc' = ?sc1\<lparr>instances := instances sc'\<rparr>" by blast
  then have same: "sc' = sc\<lparr>instances := instances sc'\<rparr>" by simp
  have k1: "fst ` set (instances ?sc1) = insert j (fst ` set (instances sc))"
    by (simp add: dom_update)
  have f: "filter (\<lambda>i. i \<notin> insert j (fst ` set (instances sc))) idx =
           filter (\<lambda>i. i \<notin> fst ` set (instances sc)) idx"
    using jn by (intro filter_cong) auto
  have keys: "map fst (instances sc') =
       map fst (instances sc) @ filter (\<lambda>i. i \<notin> fst ` set (instances sc)) (j # idx)"
  proof -
    from ih have "map fst (instances sc') = map fst (instances ?sc1) @
        filter (\<lambda>i. i \<notin> fst ` set (instances ?sc1)) idx" by blast
    then show ?thesis
      unfolding k1 f by (simp add: update_keys image_iff)
  qed
  have at_j: "map_of (instances sc') j = Some x"
  proof -
    from ih jn have "map_of (instances sc') j = map_of (instances ?sc1) j" by blast
    then show ?thesis by (simp add: update_conv')
  qed
  have vals: "\<forall>i \<in> set (j # idx). \<exists>c a x. instance_class sc = Some c \<and> args sc = Some a \<and>
        mk c i (dataloader sc) a = Inr x \<and> map_of (instances sc') i = Some x"
  proof
    fix i assume "i \<in> set (j # idx)"
    then consider "i = j" | "i \<in> set idx" by auto
    then show "\<exists>c a x. instance_class sc = Some c \<and> args sc = Some a \<and>
        mk c i (dataloader sc) a = Inr x \<and> map_of (instances sc') i = Some x"
    proof cases
      case 1
      with c a x at_j show ?thesis by simp
    next
      case 2
      with ih have "\<exists>c a x. instance_class ?sc1 = Some c \<and> args ?sc1 = Some a \<and>
        mk c i (dataloader ?sc1) a = Inr x \<and> map_of (instances sc') i = Some x" by blast
      then show ?thesis by simp
    qed
  qed
  have others: "\<forall>i. i \<notin> set (j # idx) \<longrightarrow> map_of (instances sc') i = map_of (instances sc) i"
  proof (intro allI impI)
    fix i assume "i \<notin> set (j # idx)"
    then have "i \<noteq> j" "i \<notin> set idx" by simp_all
    with ih have "map_of (instances sc') i = map_of (instances ?sc1) i" by blast
    with \<open>i \<noteq> j\<close> show "map_of (instances sc') i = map_of (instances sc) i"
      by (simp add: update_conv')
  qed
  from same keys vals others show ?case by blast
qed

lemma reset_fields:
  assumes "sc' = sc\<lparr>instances := d\<rparr>"
  shows "get_indices sc' = get_indices sc" "instance_class sc' = instance_class sc"
    "args sc' = args sc" "dataloader sc' = dataloader sc" "instances sc' = d"
proof -
  from assms have a: "start_index sc' = start_index sc" and b: "end_index sc' = end_index sc"
    by simp_all
  show "get_indices sc' = get_indices sc" unfolding get_indices_def a b ..
qed (simp_all add: assms)

lemma reset_Inr:
  assumes "reset mk sc = Inr (sc', w)"
  obtains idx where "get_indices sc = Inr idx" and "reset_loop mk sc idx = Inr sc'"
proof (cases "get_indices sc")
  case (Inl e)
  with assms show ?thesis by (simp add: reset_def)
next
  case (Inr idx)
  show ?thesis
  proof (cases "reset_loop mk sc idx")
    case (Inl e)
    with assms Inr show ?thesis by (simp add: reset_def)
  next
    case loop: (Inr sc1)
    with assms Inr have "sc1 = sc'" by (simp add: reset_def)
    with loop Inr that show ?thesis by simp
  qed
qed

lemma reset_keys:
  assumes keys0: "map fst d' = map fst d @ filter (\<lambda>i. i \<notin> fst ` set d) idx"
    and old: "d = [] \<or> map fst d = idx"
  shows "map fst d' = idx"
proof (cases "d = []")
  case True
  with keys0 show ?thesis by simp
next
  case False
  with old have k: "map fst d = idx" by simp
  have "fst ` set d = set (map fst d)" by simp
  with k have "fst ` set d = set idx" by simp
  then have "filter (\<lambda>i. i \<notin> fst ` set d) idx = []" by simp
  with keys0 k show ?thesis by simp
qed

lemma reset_populates:
  assumes conf: "configured sc" and r: "reset mk sc = Inr (sc', w)"
  shows "populated mk sc' \<and> configured sc' \<and> get_indices sc' = get_indices sc"
proof -
  from r obtain idx where idx: "get_indices sc = Inr idx"
    and loop: "reset_loop mk sc idx = Inr sc'"
    by (rule reset_Inr)
  have dist: "distinct idx" using idx by (rule get_indices_distinct)
  note l = reset_loop_Inr [OF loop dist]
  from l have same: "sc' = sc\<lparr>instances := instances sc'\<rparr>" by (rule conjunct1)
  note fld = reset_fields [OF same]
  from conf have old: "instances sc = [] \<or> map fst (instances sc) = idx"
    and cls: "instance_class sc \<noteq> None" and ar: "args sc \<noteq> None"
    unfolding configured_def idx by simp_all
  from l have keys0: "map fst (instances sc') =
       map fst (instances sc) @ filter (\<lambda>i. i \<notin> fst ` set (instances sc)) idx"
    by (rule conjunct2 [THEN conjunct1])
  from l have vals: "\<forall>i \<in> set idx. \<exists>c a x. instance_class sc = Some c \<and> args sc = Some a \<and>
        mk c i (dataloader sc) a = Inr x \<and> map_of (instances sc') i = Some x"
    by (rule conjunct2 [THEN conjunct2, THEN conjunct1])
  have keys: "map fst (instances sc') = idx"
    using keys0 old by (rule reset_keys)
  from cls ar obtain c a where c: "instance_class sc = Some c" and a: "args sc = Some a" by auto
  have all: "list_all (\<lambda>(i, x). mk c i (dataloader sc) a = Inr x) (instances sc')"
    unfolding list_all_iff
  proof (clarify)
    fix i x assume ix: "(i, x) \<in> set (instances sc')"
    from dist keys have "distinct (map fst (instances sc'))" by simp
    with ix have m: "map_of (instances sc') i = Some x" by simp
    from ix have "fst (i, x) \<in> fst ` set (instances sc')" by (rule imageI)
    then have "i \<in> set (map fst (instances sc'))" by simp
    with keys have "i \<in> set idx" by simp
    with vals have "\<exists>c a x. instance_class sc = Some c \<and> args sc = Some a \<and>
        mk c i (dataloader sc) a = Inr x \<and> map_of (instances sc') i = Some x" by (rule bspec)
    with c a m show "mk c i (dataloader sc) a = Inr x" by auto
  qed
  have gi: "get_indices sc' = Inr idx" using fld(1) idx by simp
  have p: "populated mk sc'"
    unfolding populated_def gi fld(2,3,4) c a using keys all by simp
  have q: "configured sc'"
    unfolding configured_def gi fld(2,3) c a using keys by simp
  from p q fld(1) show ?thesis by simp
qed

lemma configure_fields:
  assumes "configure sc0 a = Inr sc"
  shows "instances sc = instances sc0" "start_index sc = Some (arg_start_index a)"
    "instance_class sc \<noteq> None" "args sc = Some a"
    "\<exists>e. end_index sc = Some e \<and>
        ((0 \<le> arg_end_index a \<and> e = arg_end_index a) \<or>
         (arg_end_index a < 0 \<and> (\<exists>d. dataloader sc0 = Some d \<and> e = int (length d))))"
proof -
  from assms obtain e where
    e: "(if arg_end_index a < 0
         then (case dataloader sc0 of None \<Rightarrow> Inl TypeError | Some dl \<Rightarrow> Inr (int (length dl)))
         else Inr (arg_end_index a)) = Inr e"
    and sc: "sc = sc0\<lparr>start_index := Some (arg_start_index a), end_index := Some e,
                  args := Some a, eval_latency_unit := Some (arg_eval_latency_unit a),
                  sacrebleu_tokenizer := arg_sacrebleu_tokenizer a,
                  no_space := Some (arg_no_space a),
                  instance_class :=
                    Some (if arg_source_type a = Some ''speech''
                          then SpeechToTextInstance else TextToTextInstance)\<rparr>"
    unfolding configure_def by (simp split: sum.splits)
  show "instances sc = instances sc0" "start_index sc = Some (arg_start_index a)"
    "instance_class sc \<noteq> None" "args sc = Some a"
    unfolding sc by simp_all
  have "(0 \<le> arg_end_index a \<and> e = arg_end_index a) \<or>
         (arg_end_index a < 0 \<and> (\<exists>d. dataloader sc0 = Some d \<and> e = int (length d)))"
    using e by (cases "arg_end_index a < 0"; cases "dataloader sc0") auto
  moreover have "end_index sc = Some e" unfolding sc by simp
  ultimately show "\<exists>e. end_index sc = Some e \<and>
        ((0 \<le> arg_end_index a \<and> e = arg_end_index a) \<or>
         (arg_end_index a < 0 \<and> (\<exists>d. dataloader sc0 = Some d \<and> e = int (length d))))"
    by blast
qed

lemma configure_Inr:
  assumes "configure (bare_scorer dl) a = Inr sc"
  shows "configured sc \<and> instances sc = [] \<and> start_index sc = Some (arg_start_index a) \<and>
     args sc = Some a \<and>
     (\<exists>e. end_index sc = Some e \<and>
        ((0 \<le> arg_end_index a \<and> e = arg_end_index a) \<or>
         (arg_end_index a < 0 \<and> (\<exists>d. dl = Some d \<and> e = int (length d)))))"
proof -
  note f = configure_fields [OF assms]
  have i: "instances sc = []" using f(1) by (simp add: bare_scorer_def)
  from f(5) obtain e where e: "end_index sc = Some e" by blast
  have "configured sc"
    using f(2,3,4) e i by (simp add: configured_def get_indices_def)
  moreover have "dataloader (bare_scorer dl) = dl" by (simp add: bare_scorer_def)
  ultimately show ?thesis using i f(2,4,5) by simp
qed

lemma configured_len:
  assumes "configured sc"
  shows "\<exists>s e. start_index sc = Some s \<and> end_index sc = Some e \<and> dunder_len sc = Inr (e - s) \<and>
     len sc = (if e - s < 0 then Inl ValueError
               else if maxsize < e - s then Inl OverflowError else Inr (e - s))"
proof -
  from assms obtain idx where "get_indices sc = Inr idx"
    by (auto simp: configured_def split: sum.splits)
  then obtain s e where s: "start_index sc = Some s" and e: "end_index sc = Some e"
    by (auto simp: get_indices_def split: option.splits)
  then have "dunder_len sc = Inr (e - s)" by (simp add: dunder_len_def)
  with s e show ?thesis by (simp add: len_def)
qed

lemma reset_same_range:
  assumes "reset mk sc = Inr (sc', w)"
  shows "start_index sc' = start_index sc" "end_index sc' = end_index sc"
proof -
  from assms obtain idx where idx: "get_indices sc = Inr idx"
    and loop: "reset_loop mk sc idx = Inr sc'"
    by (rule reset_Inr)
  from reset_loop_Inr [OF loop get_indices_distinct [OF idx]]
  have same: "sc' = sc\<lparr>instances := instances sc'\<rparr>" by (rule conjunct1)
  have "start_index sc' = start_index (sc\<lparr>instances := instances sc'\<rparr>)"
    using same by (rule arg_cong)
  then show "start_index sc' = start_index sc" by simp
  have "end_index sc' = end_index (sc\<lparr>instances := instances sc'\<rparr>)"
    using same by (rule arg_cong)
  then show "end_index sc' = end_index sc" by simp
qed

lemma init_configured:
  assumes i: "init mk dl (Some a) do_reset = Inr (sc, w)"
  shows "configured sc \<and> start_index sc = Some (arg_start_index a) \<and>
      (\<exists>e. end_index sc = Some e \<and>
         ((0 \<le> arg_end_index a \<and> e = arg_end_index a) \<or>
          (arg_end_index a < 0 \<and> (\<exists>d. dl = Some d \<and> e = int (length d))))) \<and>
      (if do_reset then populated mk sc else instances sc = [])"
proof -
  from i obtain sc0 where c: "configure (bare_scorer dl) a = Inr sc0"
    and r: "(if do_reset then reset mk sc0 else Inr (sc0, [])) = Inr (sc, w)"
    by (auto simp: init_def split: sum.splits)
  note c0 = configure_Inr [OF c]
  show ?thesis
  proof (cases do_reset)
    case False
    with r have "sc = sc0" by simp
    with c0 False show ?thesis by simp
  next
    case True
    with r have rs: "reset mk sc0 = Inr (sc, w)" by simp
    from c0 have "configured sc0" by (rule conjunct1)
    from reset_populates [OF this rs] have p: "populated mk sc" and q: "configured sc"
      by simp_all
    note same = reset_same_range [OF rs]
    from c0 p q True show ?thesis unfolding same by simp
  qed
qed

text \<open>
  C2 (as amended). A scorer constructed with a configuration is configured, with the
  start index of the configuration and the end index of the configuration or, when that is
  negative, the length of the data source; it is populated when the constructor was asked
  to reset. For a configured scorer \<^verbatim>\<open>__len__\<close> returns
  \<open>end_index - start_index\<close>, and \<^verbatim>\<open>len\<close> returns the same number unless it is
  negative (\<^verbatim>\<open>ValueError\<close>) or above \<^verbatim>\<open>sys.maxsize\<close>
  (\<^verbatim>\<open>OverflowError\<close>). A reset of a configured scorer that returns leaves a
  populated scorer with the same range: the keys are exactly the indices of the range, each
  bound to the one instance constructed for it.
\<close>

theorem configured_scorer_range:
  "(init mk dl (Some a) do_reset = Inr (sc, w) \<longrightarrow>
      configured sc \<and> start_index sc = Some (arg_start_index a) \<and>
      (\<exists>e. end_index sc = Some e \<and>
         ((0 \<le> arg_end_index a \<and> e = arg_end_index a) \<or>
          (arg_end_index a < 0 \<and> (\<exists>d. dl = Some d \<and> e = int (length d))))) \<and>
      (if do_reset then populated mk sc else instances sc = [])) \<and>
   (configured sc \<longrightarrow>
      (\<exists>s e. start_index sc = Some s \<and> end_index sc = Some e \<and> dunder_len sc = Inr (e - s) \<and>
         len sc = (if e - s < 0 then Inl ValueError
                   else if maxsize < e - s then Inl OverflowError else Inr (e - s)))) \<and>
   (configured sc \<longrightarrow> reset mk sc = Inr (sc', w') \<longrightarrow>
      populated mk sc' \<and> configured sc' \<and> get_indices sc' = get_indices sc)"
proof -
  have A: "init mk dl (Some a) do_reset = Inr (sc, w) \<longrightarrow>
      configured sc \<and> start_index sc = Some (arg_start_index a) \<and>
      (\<exists>e. end_index sc = Some e \<and>
         ((0 \<le> arg_end_index a \<and> e = arg_end_index a) \<or>
          (arg_end_index a < 0 \<and> (\<exists>d. dl = Some d \<and> e = int (length d))))) \<and>
      (if do_reset then populated mk sc else instances sc = [])"
    using init_configured by (rule impI)
  have B: "configured sc \<longrightarrow>
      (\<exists>s e. start_index sc = Some s \<and> end_index sc = Some e \<and> dunder_len sc = Inr (e - s) \<and>
         len sc = (if e - s < 0 then Inl ValueError
                   else if maxsize < e - s then Inl OverflowError else Inr (e - s)))"
    using configured_len by (rule impI)
  have C: "configured sc \<longrightarrow> reset mk sc = Inr (sc', w') \<longrightarrow>
      populated mk sc' \<and> configured sc' \<and> get_indices sc' = get_indices sc"
    using reset_populates by (intro impI)
  from A B C show ?thesis by (intro conjI)
qed

lemma two_fresh_init:
  "init sample_mk (Some sample_corpus) (Some (sample_args 0 (- 1))) True = Inr (two_fresh, [])"
  by (simp add: init_def configure_def bare_scorer_def reset_def get_indices_def sample_args_def
      sample_mk_def sample_corpus_def two_fresh_def live_def fresh_def upto.simps)

lemma two_fresh_reset: "reset sample_mk two_fresh = Inr (two_fresh, [''Resetting scorer''])"
  by (simp add: reset_def get_indices_def sample_args_def
      sample_mk_def sample_corpus_def two_fresh_def live_def fresh_def upto.simps)

theorem configured_scorer_range_witness:
  "init sample_mk (Some sample_corpus) (Some (sample_args 0 (- 1))) True = Inr (two_fresh, []) \<and>
   configured two_fresh \<and> populated sample_mk two_fresh \<and>
   start_index two_fresh = Some 0 \<and> end_index two_fresh = Some 2 \<and>
   dunder_len two_fresh = Inr 2 \<and> len two_fresh = Inr 2 \<and>
   reset sample_mk two_fresh = Inr (two_fresh, [''Resetting scorer'']) \<and>
   map fst (instances two_fresh) = [0, 1]"
proof -
  note T = configured_scorer_range [of sample_mk "Some sample_corpus" "sample_args 0 (- 1)" True
      two_fresh "[]" two_fresh "[''Resetting scorer'']"]
  from T two_fresh_init have c: "configured two_fresh" and s: "start_index two_fresh = Some 0"
    by (simp_all add: sample_args_def)
  from T two_fresh_init have e: "end_index two_fresh = Some 2"
    by (auto simp: sample_args_def sample_corpus_def)
  from T c obtain s' e' where "start_index two_fresh = Some s'" "end_index two_fresh = Some e'"
    and d: "dunder_len two_fresh = Inr (e' - s')"
    and l: "len two_fresh = (if e' - s' < 0 then Inl ValueError
                   else if maxsize < e' - s' then Inl OverflowError else Inr (e' - s'))"
    by blast
  with s e have "s' = 0" "e' = 2" by simp_all
  with d l have dl: "dunder_len two_fresh = Inr 2" "len two_fresh = Inr 2"
    by (simp_all add: maxsize_def)
  from T c two_fresh_reset have p: "populated sample_mk two_fresh" by blast
  then have k: "map fst (instances two_fresh) = [0, 1]"
    by (simp add: populated_def get_indices_def s e upto.simps)
  from two_fresh_init c p s e dl two_fresh_reset k show ?thesis by simp
qed

text \<open>
  As the specification states it, the property fails for a configuration with the start index 5 and the end index 3:
  \<^verbatim>\<open>__len__\<close> returns -2 and \<^verbatim>\<open>len\<close> raises \<^verbatim>\<open>ValueError\<close>.
\<close>

theorem negative_len_counterexample:
  "init sample_mk None (Some (sample_args 5 3)) True = Inr (backwards, []) \<and>
   start_index backwards = Some 5 \<and> end_index backwards = Some 3 \<and>
   dunder_len backwards = Inr (- 2) \<and> len backwards = Inl ValueError"
  by (simp add: init_def configure_def bare_scorer_def reset_def get_indices_def sample_args_def
      backwards_def live_def dunder_len_def len_def)

subsection \<open>Round trip through the log\<close>

lemma finished_translation:
  assumes idx: "get_indices sc = Inr idx"
    and dom: "\<forall>i \<in> set idx. map_of (instances sc) i \<noteq> None"
    and fin: "unfinished_before sc idx = []"
  shows "get_translation_list sle sc =
     Inr (map (\<lambda>i. prediction (the (map_of (instances sc) i))) idx, sc,
          empty_lines (empty_in sc idx))"
proof -
  have "eval_unfinished sle (unfinished_before sc idx) (instances sc) = Inr (instances sc)"
    unfolding fin by simp
  from get_translation_list_char [OF idx dom this] show ?thesis
    unfolding fin by (simp add: eos_lines_def)
qed

lemma finished_quality:
  assumes idx: "get_indices sc = Inr idx"
    and dom: "\<forall>i \<in> set idx. map_of (instances sc) i \<noteq> None"
    and fin: "unfinished_before sc idx = []"
  shows "get_quality_score corpus_bleu sle sc =
     (case corpus_bleu (map (\<lambda>i. prediction (the (map_of (instances sc) i))) idx)
             [map (\<lambda>i. reference (the (map_of (instances sc) i))) idx]
             (sacrebleu_tokenizer sc) of
        Inl e \<Rightarrow> Inl e
      | Inr b \<Rightarrow> Inr ([''BLEU'' \<mapsto> b], sc, empty_lines (empty_in sc idx)))"
proof -
  have r: "get_reference_list sc = Inr (map (\<lambda>i. reference (the (map_of (instances sc) i))) idx)"
    unfolding get_reference_list_def idx by (simp add: for_indices_total [OF dom])
  show ?thesis
    unfolding get_quality_score_def finished_translation [OF idx dom fin]
    by (simp add: r)
qed

lemma finished_score:
  assumes idx: "get_indices sc = Inr idx"
    and dom: "\<forall>i \<in> set idx. map_of (instances sc) i \<noteq> None"
    and fin: "unfinished_before sc idx = []"
  shows "map_sum id fst (score corpus_bleu sle sc) =
     (case corpus_bleu (map (\<lambda>i. prediction (the (map_of (instances sc) i))) idx)
             [map (\<lambda>i. reference (the (map_of (instances sc) i))) idx]
             (sacrebleu_tokenizer sc) of
        Inl e \<Rightarrow> Inl e
      | Inr b \<Rightarrow>
          (case get_latency_score sc of
             Inl e \<Rightarrow> Inl e
           | Inr latency \<Rightarrow> Inr [''Quality'' \<mapsto> [''BLEU'' \<mapsto> b], ''Latency'' \<mapsto> latency]))"
  unfolding score_def finished_quality [OF idx dom fin]
  by (simp split: sum.splits)

lemma update_fresh: "k \<notin> fst ` set d \<Longrightarrow> AList.update k v d = d @ [(k, v)]"
  by (induction d) auto

lemma insert_all_fresh:
  "distinct (map fst d @ map index xs) \<Longrightarrow> insert_all xs d = d @ map (\<lambda>x. (index x, x)) xs"
proof (induction xs arbitrary: d)
  case Nil
  then show ?case by (simp add: insert_all_def)
next
  case (Cons x xs)
  from Cons.prems have fresh: "index x \<notin> fst ` set d" by auto
  from Cons.prems have "distinct (map fst (d @ [(index x, x)]) @ map index xs)" by auto
  from Cons.IH [OF this] have "insert_all xs (d @ [(index x, x)]) =
      (d @ [(index x, x)]) @ map (\<lambda>x. (index x, x)) xs" .
  then show ?case
    by (simp add: insert_all_def update_fresh [OF fresh])
qed

lemma keyed_by_index:
  "list_all (\<lambda>(i, x). index x = i \<and> P x) d \<Longrightarrow> map (\<lambda>x. (index x, x)) (map snd d) = d"
  by (induction d) auto

lemma finished_from_zero_view:
  assumes f: "finished_from_zero sc"
  shows "get_indices sc = Inr (map fst (instances sc))"
    and "\<forall>i \<in> set (map fst (instances sc)). map_of (instances sc) i \<noteq> None"
    and "unfinished_before sc (map fst (instances sc)) = []"
    and "distinct (map fst (instances sc))"
    and "map (\<lambda>x. (index x, x)) (map snd (instances sc)) = instances sc"
proof -
  from f have s: "start_index sc = Some 0"
    and e: "end_index sc = Some (int (length (instances sc)))"
    and k: "map fst (instances sc) = [0..int (length (instances sc)) - 1]"
    and a: "list_all (\<lambda>(i, x). index x = i \<and> finish_prediction x) (instances sc)"
    by (simp_all add: finished_from_zero_def)
  show "get_indices sc = Inr (map fst (instances sc))"
    unfolding k by (simp add: get_indices_def s e)
  show "\<forall>i \<in> set (map fst (instances sc)). map_of (instances sc) i \<noteq> None"
    by (simp add: map_of_eq_None_iff)
  show "distinct (map fst (instances sc))"
    unfolding k by simp
  show "map (\<lambda>x. (index x, x)) (map snd (instances sc)) = instances sc"
    using a by (rule keyed_by_index)
  have "\<not> (case map_of (instances sc) i of None \<Rightarrow> False | Some x \<Rightarrow> \<not> finish_prediction x)" for i
  proof (cases "map_of (instances sc) i")
    case None
    then show ?thesis by simp
  next
    case (Some x)
    then have "(i, x) \<in> set (instances sc)" by (rule map_of_SomeD)
    with a have "finish_prediction x" by (auto simp: list_all_iff)
    with Some show ?thesis by simp
  qed
  then show "unfinished_before sc (map fst (instances sc)) = []"
    by (simp add: unfinished_before_def)
qed

lemma family_values_map:
  "\<forall>seg \<in> set xs. \<exists>sub v. metrics seg f = Some sub \<and> sub m = Some v \<Longrightarrow>
     family_values f m xs = Inr (map (\<lambda>seg. the (the (metrics seg f) m)) xs)"
  by (induction xs) auto

lemma family_values_carried:
  "family_values f m xs = Inr vs \<Longrightarrow>
     \<forall>seg \<in> set xs. \<exists>sub v. metrics seg f = Some sub \<and> sub m = Some v"
  by (induction xs arbitrary: vs) (auto split: option.splits sum.splits)

lemma mean_mset: "mset vs' = mset vs \<Longrightarrow> mean vs' = mean vs"
proof -
  assume a: "mset vs' = mset vs"
  then have "sum_mset (mset vs') = sum_mset (mset vs)" by simp
  then have s: "sum_list vs' = sum_list vs" by (simp only: sum_mset_sum_list)
  from a have l: "length vs' = length vs" by (rule mset_eq_length)
  then have "vs' = [] \<longleftrightarrow> vs = []" by auto
  with s l show ?thesis by (simp add: mean_def)
qed

lemma family_values_perm:
  assumes p: "mset xs' = mset xs"
    and v': "family_values f m xs' = Inr vs'"
  shows "\<exists>vs. family_values f m xs = Inr vs \<and> mset vs = mset vs'"
proof -
  let ?val = "\<lambda>seg. the (the (metrics seg f) m)"
  from v' have all': "\<forall>seg \<in> set xs'. \<exists>sub v. metrics seg f = Some sub \<and> sub m = Some v"
    by (rule family_values_carried)
  from family_values_map [OF all'] v' have vs': "vs' = map ?val xs'" by simp
  from p have "set xs' = set xs" by (rule mset_eq_setD)
  with all' have "\<forall>seg \<in> set xs. \<exists>sub v. metrics seg f = Some sub \<and> sub m = Some v"
    by (simp only:)
  then have v: "family_values f m xs = Inr (map ?val xs)" by (rule family_values_map)
  have "mset (map ?val xs) = mset vs'"
    unfolding vs' mset_map [of ?val] p ..
  with v show ?thesis by blast
qed

lemma family_mean_perm:
  assumes p: "mset (map snd (instances sc')) = mset (map snd (instances sc))"
    and a: "family_mean sc' f m = Inr a"
  shows "family_mean sc f m = Inr a"
proof -
  from a obtain vs' where v': "family_values f m (map snd (instances sc')) = Inr vs'"
    and m': "mean vs' = Inr a"
    by (auto simp: family_mean_def split: sum.splits)
  from family_values_perm [OF p v'] obtain vs
    where v: "family_values f m (map snd (instances sc)) = Inr vs" and e: "mset vs = mset vs'"
    by blast
  from mean_mset [OF e] m' have "mean vs = Inr a" by simp
  with v show ?thesis by (simp add: family_mean_def)
qed

lemma latency_variant_perm:
  assumes p: "mset (map snd (instances sc')) = mset (map snd (instances sc))"
    and z: "map_of (instances sc') 0 = map_of (instances sc) 0"
    and a: "latency_variant sc' f suffix m r = Inr r'"
  shows "latency_variant sc f suffix m r = Inr r'"
proof -
  from latency_variant_Inr [OF a] obtain first where first: "map_of (instances sc') 0 = Some first"
    and c: "if metrics first f \<noteq> None
        then \<exists>a. family_mean sc' f m = Inr a \<and> r' = r(m @ suffix \<mapsto> a)
        else r' = r"
    by blast
  from first z have first': "map_of (instances sc) 0 = Some first" by simp
  show ?thesis
  proof (cases "metrics first f \<noteq> None")
    case False
    with c first' show ?thesis by (simp add: latency_variant_def)
  next
    case True
    with c obtain a where "family_mean sc' f m = Inr a" and r': "r' = r(m @ suffix \<mapsto> a)"
      by auto
    from family_mean_perm [OF p this(1)] True first' r' show ?thesis
      by (simp add: latency_variant_def)
  qed
qed

lemma latency_body_perm:
  assumes p: "mset (map snd (instances sc')) = mset (map snd (instances sc))"
    and z: "map_of (instances sc') 0 = map_of (instances sc) 0"
    and a: "latency_body sc' m r = Inr r'"
  shows "latency_body sc m r = Inr r'"
proof -
  from a obtain b r1 where b: "family_mean sc' ''latency'' m = Inr b"
    and r1: "latency_variant sc' ''latency_ca'' ''_CA'' m (r(m \<mapsto> b)) = Inr r1"
    and r': "latency_variant sc' ''latency_text_w_time'' '' (Time in ms)'' m r1 = Inr r'"
    by (rule latency_body_steps)
  from family_mean_perm [OF p b] latency_variant_perm [OF p z r1] latency_variant_perm [OF p z r']
  show ?thesis by (simp add: latency_body_def)
qed

lemma latency_loop_perm:
  assumes p: "mset (map snd (instances sc')) = mset (map snd (instances sc))"
    and z: "map_of (instances sc') 0 = map_of (instances sc) 0"
  shows "latency_loop sc' ms r = Inr r' \<Longrightarrow> latency_loop sc ms r = Inr r'"
proof (induction ms arbitrary: r)
  case Nil
  then show ?case by simp
next
  case (Cons m ms)
  from Cons.prems obtain r1 where b: "latency_body sc' m r = Inr r1"
    and l: "latency_loop sc' ms r1 = Inr r'"
    by (auto split: sum.splits)
  from latency_body_perm [OF p z b] Cons.IH [OF l] show ?case by simp
qed

lemma get_latency_score_perm:
  assumes p: "mset (map snd (instances sc')) = mset (map snd (instances sc))"
    and z: "map_of (instances sc') 0 = map_of (instances sc) 0"
  shows "get_latency_score sc' = Inr r \<longleftrightarrow> get_latency_score sc = Inr r"
  unfolding get_latency_score_def
  using latency_loop_perm [OF p z] latency_loop_perm [OF p [symmetric] z [symmetric]]
  by blast


lemma read_back:
  assumes a: "mset rs = mset (map Inr ys)"
  shows "\<exists>xs. rs = map Inr xs \<and> mset xs = mset ys"
proof -
  from a have "set rs = set (map Inr ys)" by (rule mset_eq_setD)
  then have "\<forall>r \<in> set rs. Inr (projr r) = r" by auto
  then have "map (\<lambda>r. Inr (projr r)) rs = rs" by (simp add: map_idI)
  then have b: "rs = map Inr (map projr rs)" by (simp add: comp_def)
  from arg_cong [OF a, of "image_mset projr"]
  have "mset (map projr rs) = mset ys" by (simp add: multiset.map_comp comp_def)
  with b show ?thesis by blast
qed

lemma from_log_replay:
  assumes f: "finished_from_zero sc"
    and l: "is_log_of from_json sc ls"
    and o: "open_file log_path = Inr ls"
  shows "\<exists>d. from_log from_json open_file log_path ''text'' =
        Inr ((bare_scorer None)\<lparr>start_index := Some 0,
               end_index := Some (int (length (instances sc))), instances := d\<rparr>) \<and>
      map_of d = map_of (instances sc) \<and>
      mset (map snd d) = mset (map snd (instances sc))"
proof -
  let ?ys = "map snd (instances sc)"
  let ?key = "\<lambda>x. (index x, x)"
  note v = finished_from_zero_view [OF f]
  have "map (\<lambda>(i, x). Inr x) (instances sc) = (map Inr ?ys :: (py_error + Instance) list)"
    by (simp add: case_prod_unfold)
  with l have "mset (map (\<lambda>l. from_json TextOutputInstance (strip l)) ls) = mset (map Inr ?ys)"
    by (simp only: is_log_of_def)
  from read_back [OF this] obtain xs
    where m: "map (\<lambda>l. from_json TextOutputInstance (strip l)) ls = map Inr xs"
      and p: "mset xs = mset ?ys"
    by blast
  from read_instances_total [OF m]
  have r: "read_instances (from_json TextOutputInstance) ls [] = Inr (insert_all xs [])" .
  have "map fst (map ?key ?ys) = map fst (instances sc)"
    by (simp only: v(5))
  then have mi: "map index ?ys = map fst (instances sc)" by (simp add: comp_def)
  from p have "image_mset index (mset xs) = image_mset index (mset ?ys)" by (rule arg_cong)
  then have "mset (map index xs) = mset (map index ?ys)" by (simp only: mset_map)
  then have "distinct (map index xs) \<longleftrightarrow> distinct (map index ?ys)"
    by (rule mset_eq_imp_distinct_iff)
  then have "distinct (map index xs) \<longleftrightarrow> distinct (map fst (instances sc))"
    by (simp only: mi)
  with v(4) have dx: "distinct (map index xs)" by (simp only:)
  then have "distinct (map fst ([] :: instance_dict) @ map index xs)" by simp
  from insert_all_fresh [OF this] have d: "insert_all xs [] = map ?key xs" by simp
  have len: "length (map ?key xs) = length (instances sc)"
    using mset_eq_length [OF p] by simp
  have "set xs = set ?ys" using p by (rule mset_eq_setD)
  then have "?key ` set xs = ?key ` set ?ys" by (rule arg_cong)
  then have "set (map ?key xs) = set (map ?key ?ys)" by (simp only: set_map)
  then have "set (map ?key xs) = set (instances sc)" by (simp only: v(5))
  moreover have "distinct (map fst (map ?key xs))" using dx by (simp add: comp_def)
  ultimately have mo: "map_of (map ?key xs) = map_of (instances sc)"
    using v(4) by (simp add: map_of_inject_set)
  have sn: "map snd (map ?key xs) = xs" by (simp add: comp_def)
  have "from_log from_json open_file log_path ''text'' =
        Inr ((bare_scorer None)\<lparr>start_index := Some 0,
               end_index := Some (int (length (instances sc))), instances := map ?key xs\<rparr>)"
    using len by (simp add: from_log_def o r d)
  moreover have "mset (map snd (map ?key xs)) = mset ?ys"
    unfolding sn by (rule p)
  ultimately show ?thesis using mo by blast
qed

lemma replay_score:
  assumes f: "finished_from_zero sc"
    and t: "sacrebleu_tokenizer sc = ''13a''"
    and mo: "map_of d = map_of (instances sc)"
    and ms: "mset (map snd d) = mset (map snd (instances sc))"
  shows "rel_sum (\<lambda>e e'. True) (=)
     (map_sum id fst (score corpus_bleu sle
        ((bare_scorer None)\<lparr>start_index := Some 0,
           end_index := Some (int (length (instances sc))), instances := d\<rparr>)))
     (map_sum id fst (score corpus_bleu sle sc))"
proof -
  let ?replay = "(bare_scorer None)\<lparr>start_index := Some 0,
           end_index := Some (int (length (instances sc))), instances := d\<rparr>"
  let ?idx = "map fst (instances sc)"
  note v = finished_from_zero_view [OF f]
  have i: "instances ?replay = d" by simp
  have tk: "sacrebleu_tokenizer ?replay = sacrebleu_tokenizer sc"
    by (simp add: t bare_scorer_def)
  from f have "get_indices ?replay = get_indices sc"
    by (simp add: get_indices_def finished_from_zero_def)
  with v(1) have idx: "get_indices ?replay = Inr ?idx" by simp
  have dom: "\<forall>i \<in> set ?idx. map_of (instances ?replay) i \<noteq> None"
    unfolding i mo by (rule v(2))
  have fin: "unfinished_before ?replay ?idx = []"
    using v(3) unfolding unfinished_before_def i mo .
  have lat: "get_latency_score ?replay = Inr r \<longleftrightarrow> get_latency_score sc = Inr r" for r
  proof (rule get_latency_score_perm)
    show "mset (map snd (instances ?replay)) = mset (map snd (instances sc))"
      unfolding i by (rule ms)
    show "map_of (instances ?replay) 0 = map_of (instances sc) 0"
      unfolding i mo ..
  qed
  let ?b = "corpus_bleu (map (\<lambda>i. prediction (the (map_of (instances sc) i))) ?idx)
             [map (\<lambda>i. reference (the (map_of (instances sc) i))) ?idx] (sacrebleu_tokenizer sc)"
  have A: "map_sum id fst (score corpus_bleu sle sc) =
     (case ?b of Inl e \<Rightarrow> Inl e
      | Inr b \<Rightarrow>
          (case get_latency_score sc of
             Inl e \<Rightarrow> Inl e
           | Inr latency \<Rightarrow> Inr [''Quality'' \<mapsto> [''BLEU'' \<mapsto> b], ''Latency'' \<mapsto> latency]))"
    by (rule finished_score [OF v(1,2,3)])
  have B: "map_sum id fst (score corpus_bleu sle ?replay) =
     (case ?b of Inl e \<Rightarrow> Inl e
      | Inr b \<Rightarrow>
          (case get_latency_score ?replay of
             Inl e \<Rightarrow> Inl e
           | Inr latency \<Rightarrow> Inr [''Quality'' \<mapsto> [''BLEU'' \<mapsto> b], ''Latency'' \<mapsto> latency]))"
    using finished_score [OF idx dom fin, of corpus_bleu sle] unfolding i mo tk .
  show ?thesis
  proof (cases ?b)
    case (Inl e)
    then show ?thesis unfolding A B by simp
  next
    case b: (Inr b)
    show ?thesis
    proof (cases "get_latency_score sc")
      case (Inl e)
      with lat obtain e' where "get_latency_score ?replay = Inl e'"
        by (cases "get_latency_score ?replay") auto
      with Inl b show ?thesis unfolding A B by simp
    next
      case (Inr r)
      with lat have "get_latency_score ?replay = Inr r" by simp
      with Inr b show ?thesis unfolding A B by simp
    qed
  qed
qed

text \<open>
  C1 (as amended). Take a scorer over indices numbered from 0 whose instances are all
  finished and whose tokenizer is "13a", and a log from whose lines the deserializer reads
  back the instances of the scorer, one line per instance. Then \<^verbatim>\<open>from_log\<close>
  on that log returns a scorer, and \<^verbatim>\<open>score\<close> on it gives what
  \<^verbatim>\<open>score\<close> on the original gives: the same mapping, with the same "Quality"
  and "Latency" entries, or both raise.
\<close>

theorem from_log_round_trip:
  assumes f: "finished_from_zero sc"
    and l: "is_log_of from_json sc ls"
    and o: "open_file log_path = Inr ls"
    and t: "sacrebleu_tokenizer sc = ''13a''"
  shows "\<exists>replay. from_log from_json open_file log_path ''text'' = Inr replay \<and>
     rel_sum (\<lambda>e e'. True) (=)
       (map_sum id fst (score corpus_bleu sle replay))
       (map_sum id fst (score corpus_bleu sle sc))"
proof -
  from from_log_replay [where open_file = open_file and log_path = log_path, OF f l o]
  obtain d where r: "from_log from_json open_file log_path ''text'' =
        Inr ((bare_scorer None)\<lparr>start_index := Some 0,
               end_index := Some (int (length (instances sc))), instances := d\<rparr>)"
    and mo: "map_of d = map_of (instances sc)"
    and ms: "mset (map snd d) = mset (map snd (instances sc))"
    by blast
  from r replay_score [OF f t mo ms] show ?thesis by blast
qed

lemma two_live_finished: "finished_from_zero two_live"
  by (simp add: finished_from_zero_def two_live_def live_def sample_instance_def upto.simps)

lemma two_live_log_of: "is_log_of sample_from_json two_live two_live_log"
  by (simp add: is_log_of_def two_live_def live_def two_live_log_def sample_from_json_def
      strip_def py_isspace_def add_mset_commute)

lemma two_live_open: "sample_open two_live_log ''log'' = Inr two_live_log"
  by (simp add: sample_open_def)

lemma two_live_tokenizer: "sacrebleu_tokenizer two_live = ''13a''"
  by (simp add: two_live_def live_def)

lemma two_live_replay:
  "from_log sample_from_json (sample_open two_live_log) ''log'' ''text'' = Inr two_replay"
  by (simp add: from_log_def sample_open_def two_live_log_def two_replay_def sample_scorer_def
      bare_scorer_def sample_from_json_def sample_instance_def strip_def py_isspace_def)

lemma two_live_bleu:
  "sample_bleu [''a b a b'', ''a b''] [[''a b'', ''a b'']] ''13a'' =
     Inr (exp ((ln (200 / 3) + ln 50 + ln 25 + ln 25) / 4))"
  by (simp add: sample_bleu_def bleu_tokens_def py_isspace_def ngram_stats_def clipped_def
      brevity_def Let_def)

lemma two_live_latency:
  "get_latency_score two_live = Inr [''AL'' \<mapsto> 2, ''AP'' \<mapsto> 1, ''DAL'' \<mapsto> 2]"
  by (simp add: get_latency_score_def latency_body_def family_mean_def latency_variant_def
      mean_def to_double_small two_live_def live_def sample_instance_def sample_metrics_def)

lemma two_live_score:
  "map_sum id fst (score sample_bleu sample_eval two_live) =
     Inr [''Quality'' \<mapsto> [''BLEU'' \<mapsto> exp ((ln (200 / 3) + ln 50 + ln 25 + ln 25) / 4)],
          ''Latency'' \<mapsto> [''AL'' \<mapsto> 2, ''AP'' \<mapsto> 1, ''DAL'' \<mapsto> 2]]"
proof -
  have g: "get_translation_list sample_eval two_live = Inr ([''a b a b'', ''a b''], two_live, [])"
    by (simp add: get_translation_list_def get_indices_def two_live_def live_def
        sample_instance_def upto.simps)
  have r: "get_reference_list two_live = Inr [''a b'', ''a b'']"
    by (simp add: get_reference_list_def get_indices_def two_live_def live_def
        sample_instance_def upto.simps)
  show ?thesis
    unfolding score_after_translation [OF g r] two_live_tokenizer two_live_bleu two_live_latency
    by simp
qed

theorem from_log_round_trip_witness:
  "finished_from_zero two_live \<and> is_log_of sample_from_json two_live two_live_log \<and>
   sample_open two_live_log ''log'' = Inr two_live_log \<and>
   sacrebleu_tokenizer two_live = ''13a'' \<and>
   from_log sample_from_json (sample_open two_live_log) ''log'' ''text'' = Inr two_replay \<and>
   map_sum id fst (score sample_bleu sample_eval two_replay) =
     Inr [''Quality'' \<mapsto> [''BLEU'' \<mapsto> exp ((ln (200 / 3) + ln 50 + ln 25 + ln 25) / 4)],
          ''Latency'' \<mapsto> [''AL'' \<mapsto> 2, ''AP'' \<mapsto> 1, ''DAL'' \<mapsto> 2]] \<and>
   map_sum id fst (score sample_bleu sample_eval two_live) =
     Inr [''Quality'' \<mapsto> [''BLEU'' \<mapsto> exp ((ln (200 / 3) + ln 50 + ln 25 + ln 25) / 4)],
          ''Latency'' \<mapsto> [''AL'' \<mapsto> 2, ''AP'' \<mapsto> 1, ''DAL'' \<mapsto> 2]]"
proof -
  from from_log_round_trip [where open_file = "sample_open two_live_log"
      and log_path = "''log''" and corpus_bleu = sample_bleu and sle = sample_eval,
      OF two_live_finished two_live_log_of two_live_open two_live_tokenizer]
  obtain replay
    where a: "from_log sample_from_json (sample_open two_live_log) ''log'' ''text'' = Inr replay"
      and b: "rel_sum (\<lambda>e e'. True) (=)
         (map_sum id fst (score sample_bleu sample_eval replay))
         (map_sum id fst (score sample_bleu sample_eval two_live))"
    by blast
  from a have "replay = two_replay" unfolding two_live_replay by simp
  with b have "rel_sum (\<lambda>e e'. True) (=)
         (map_sum id fst (score sample_bleu sample_eval two_replay))
         (map_sum id fst (score sample_bleu sample_eval two_live))"
    by simp
  then have c: "map_sum id fst (score sample_bleu sample_eval two_replay) =
     Inr [''Quality'' \<mapsto> [''BLEU'' \<mapsto> exp ((ln (200 / 3) + ln 50 + ln 25 + ln 25) / 4)],
          ''Latency'' \<mapsto> [''AL'' \<mapsto> 2, ''AP'' \<mapsto> 1, ''DAL'' \<mapsto> 2]]"
    unfolding two_live_score
    by (cases "map_sum id fst (score sample_bleu sample_eval two_replay)") simp_all
  from two_live_finished two_live_log_of two_live_open two_live_tokenizer two_live_replay c
    two_live_score
  show ?thesis by (intro conjI)
qed

lemma char_init:
  "init sample_mk (Some char_corpus) (Some char_args) True = Inr (char_live (fresh 0 ''a b''), [])"
  by (simp add: init_def configure_def bare_scorer_def reset_def get_indices_def char_args_def
      sample_args_def sample_mk_def char_corpus_def char_live_def fresh_def upto.simps)

lemma char_finished: "finished_from_zero (char_live (sample_instance 0 True ''ab ab'' 2))"
  by (simp add: finished_from_zero_def char_live_def sample_instance_def upto.simps)

lemma char_log_of:
  "is_log_of sample_from_json (char_live (sample_instance 0 True ''ab ab'' 2)) [''0ab ab\<newline>'']"
  by (simp add: is_log_of_def char_live_def sample_from_json_def strip_def py_isspace_def)

lemma char_from_log:
  "from_log sample_from_json (sample_open [''0ab ab\<newline>'']) ''log'' ''text'' = Inr char_replay"
  by (simp add: from_log_def sample_open_def char_replay_def sample_scorer_def
      bare_scorer_def sample_from_json_def sample_instance_def strip_def py_isspace_def)

lemma char_bleu_13a: "sample_bleu [''ab ab''] [[''a b'']] ''13a'' = Inr 0"
  by (simp add: sample_bleu_def bleu_tokens_def py_isspace_def ngram_stats_def clipped_def
      brevity_def Let_def)

lemma char_bleu_char:
  "sample_bleu [''ab ab''] [[''a b'']] ''char'' =
     Inr (exp ((ln 50 + ln (100 / 3) + ln 25 + ln 25) / 4))"
  by (simp add: sample_bleu_def bleu_tokens_def py_isspace_def ngram_stats_def clipped_def
      brevity_def Let_def)

lemma char_replay_score:
  "reported_bleu (map_sum id fst (score sample_bleu sample_eval char_replay)) = Some 0"
proof -
  have g: "get_translation_list sample_eval char_replay = Inr ([''ab ab''], char_replay, [])"
    by (simp add: get_translation_list_def get_indices_def char_replay_def sample_scorer_def
        bare_scorer_def sample_instance_def upto.simps)
  have r: "get_reference_list char_replay = Inr [''a b'']"
    by (simp add: get_reference_list_def get_indices_def char_replay_def sample_scorer_def
        bare_scorer_def sample_instance_def upto.simps)
  have t: "sacrebleu_tokenizer char_replay = ''13a''"
    by (simp add: char_replay_def sample_scorer_def bare_scorer_def)
  have l: "get_latency_score char_replay = Inr [''AL'' \<mapsto> 2, ''AP'' \<mapsto> 1, ''DAL'' \<mapsto> 2]"
    by (simp add: get_latency_score_def latency_body_def family_mean_def latency_variant_def
        mean_def to_double_small char_replay_def sample_scorer_def bare_scorer_def
        sample_instance_def sample_metrics_def)
  show ?thesis
    unfolding score_after_translation [OF g r] t char_bleu_13a l
    by (simp add: reported_bleu_def)
qed

lemma char_live_score:
  "reported_bleu (map_sum id fst
      (score sample_bleu sample_eval (char_live (sample_instance 0 True ''ab ab'' 2)))) =
     Some (exp ((ln 50 + ln (100 / 3) + ln 25 + ln 25) / 4))"
proof -
  let ?sc = "char_live (sample_instance 0 True ''ab ab'' 2)"
  have g: "get_translation_list sample_eval ?sc = Inr ([''ab ab''], ?sc, [])"
    by (simp add: get_translation_list_def get_indices_def char_live_def
        sample_instance_def upto.simps)
  have r: "get_reference_list ?sc = Inr [''a b'']"
    by (simp add: get_reference_list_def get_indices_def char_live_def
        sample_instance_def upto.simps)
  have t: "sacrebleu_tokenizer ?sc = ''char''"
    by (simp add: char_live_def)
  have l: "get_latency_score ?sc = Inr [''AL'' \<mapsto> 2, ''AP'' \<mapsto> 1, ''DAL'' \<mapsto> 2]"
    by (simp add: get_latency_score_def latency_body_def family_mean_def latency_variant_def
        mean_def to_double_small char_live_def sample_instance_def sample_metrics_def)
  show ?thesis
    unfolding score_after_translation [OF g r] t char_bleu_char l
    by (simp add: reported_bleu_def)
qed

text \<open>
  As the specification states it, the property fails for a live scorer configured with the
  tokenizer "char": the log carries no tokenizer, and the reconstructed scorer keeps the
  default "13a". For the prediction "ab ab" against the reference "a b" no word of the
  prediction is in the reference, BLEU 0, while its characters a, b, a, b match those of
  the reference, a positive BLEU.
\<close>

theorem tokenizer_round_trip_counterexample:
  "init sample_mk (Some char_corpus) (Some char_args) True =
     Inr (char_live (fresh 0 ''a b''), []) \<and>
   finished_from_zero (char_live (sample_instance 0 True ''ab ab'' 2)) \<and>
   is_log_of sample_from_json (char_live (sample_instance 0 True ''ab ab'' 2)) [''0ab ab\<newline>''] \<and>
   from_log sample_from_json (sample_open [''0ab ab\<newline>'']) ''log'' ''text'' = Inr char_replay \<and>
   reported_bleu (map_sum id fst (score sample_bleu sample_eval char_replay)) = Some 0 \<and>
   reported_bleu (map_sum id fst
      (score sample_bleu sample_eval (char_live (sample_instance 0 True ''ab ab'' 2)))) =
     Some (exp ((ln 50 + ln (100 / 3) + ln 25 + ln 25) / 4)) \<and>
   (0 :: real) < exp ((ln 50 + ln (100 / 3) + ln 25 + ln 25) / 4)"
proof -
  have p: "(0 :: real) < exp ((ln 50 + ln (100 / 3) + ln 25 + ln 25) / 4)" by (rule exp_gt_zero)
  from char_init char_finished char_log_of char_from_log char_replay_score char_live_score p
  show ?thesis by (intro conjI)
qed

end
